theory Spec2Isabelle
  imports Main "HOL-Library.Word"
begin

unbundle bit_operations_syntax

section \<open>Bytes and JavaScript numbers\<close>

text \<open>
  The writer of \<^verbatim>\<open>src/CdrWriter.ts\<close> is embedded as state-passing functions over a
  record of its private fields. A JavaScript \<^verbatim>\<open>number\<close> or \<^verbatim>\<open>bigint\<close> that holds an
  integer is an \<^typ>\<open>int\<close>; byte counts, offsets and alignments are \<^typ>\<open>nat\<close>
  (the model does not cover negative or fractional byte counts). A floating-point
  argument is carried as the IEEE-754 bit pattern that the \<^verbatim>\<open>DataView\<close> setter
  stores for it.
\<close>

type_synonym byte = "8 word"

text \<open>The \<^verbatim>\<open>n\<close> low bytes of an integer, least significant first: what the
  \<^verbatim>\<open>DataView\<close> integer setters store after their modular conversion
  (ToInt16, ToUint32, BigInt.asIntN ...).\<close>

primrec le_bytes :: "nat \<Rightarrow> int \<Rightarrow> byte list" where
  "le_bytes 0 v = []"
| "le_bytes (Suc n) v = word_of_int v # le_bytes n (v div 256)"

definition num_bytes :: "nat \<Rightarrow> bool \<Rightarrow> int \<Rightarrow> byte list" where
  "num_bytes n littleEndian v = (if littleEndian then le_bytes n v else rev (le_bytes n v))"

text \<open>JavaScript's bitwise operators: both operands go through ToInt32, the result
  is a signed 32-bit integer, and a shift count is taken modulo 32.\<close>

definition js_or :: "int \<Rightarrow> int \<Rightarrow> int" where
  "js_or a b = sint ((word_of_int a :: 32 word) OR word_of_int b)"

definition js_and :: "int \<Rightarrow> int \<Rightarrow> int" where
  "js_and a b = sint ((word_of_int a :: 32 word) AND word_of_int b)"

definition js_shl :: "int \<Rightarrow> nat \<Rightarrow> int" where
  "js_shl a k = sint (push_bit (k mod 32) (word_of_int a :: 32 word))"

definition js_sar :: "int \<Rightarrow> nat \<Rightarrow> int" where
  "js_sar a k = sint (signed_drop_bit (k mod 32) (word_of_int a :: 32 word))"

section \<open>Errors and the typed-array buffer\<close>

text \<open>\<^verbatim>\<open>RangeError\<close> is what \<^verbatim>\<open>DataView.set*\<close>, \<^verbatim>\<open>TypedArray.set\<close> and the
  \<^verbatim>\<open>Uint8Array\<close> constructor throw out of bounds. The others are the \<^verbatim>\<open>Error\<close>s
  thrown by \<^verbatim>\<open>#memberHeaderV2\<close>, told apart by their message.\<close>

datatype error =
    RangeError
  | IdTooLarge
  | SizeNotFixed int int
  | SizeNotMultipleOf4
  | SizeNotMultipleOf8
  | UnexpectedLengthCode int

fun BadLengthCode :: "error \<Rightarrow> bool" where
  "BadLengthCode (SizeNotFixed lc s) = True"
| "BadLengthCode SizeNotMultipleOf4 = True"
| "BadLengthCode SizeNotMultipleOf8 = True"
| "BadLengthCode (UnexpectedLengthCode lc) = True"
| "BadLengthCode e = False"

definition write_at :: "nat \<Rightarrow> byte list \<Rightarrow> byte list \<Rightarrow> byte list" where
  "write_at pos bs buf = take pos buf @ bs @ drop (pos + length bs) buf"

text \<open>\<^verbatim>\<open>DataView.prototype.set*\<close>: a write that does not fit throws.\<close>

definition dataview_set :: "nat \<Rightarrow> byte list \<Rightarrow> byte list \<Rightarrow> error + byte list" where
  "dataview_set pos bs buf =
     (if pos + length bs > length buf then Inl RangeError else Inr (write_at pos bs buf))"

definition setInt8 :: "nat \<Rightarrow> int \<Rightarrow> byte list \<Rightarrow> error + byte list" where
  "setInt8 pos v buf = dataview_set pos (le_bytes 1 v) buf"

definition setUint8 :: "nat \<Rightarrow> int \<Rightarrow> byte list \<Rightarrow> error + byte list" where
  "setUint8 pos v buf = dataview_set pos (le_bytes 1 v) buf"

definition setInt16 :: "nat \<Rightarrow> int \<Rightarrow> bool \<Rightarrow> byte list \<Rightarrow> error + byte list" where
  "setInt16 pos v le buf = dataview_set pos (num_bytes 2 le v) buf"

definition setUint16 :: "nat \<Rightarrow> int \<Rightarrow> bool \<Rightarrow> byte list \<Rightarrow> error + byte list" where
  "setUint16 pos v le buf = dataview_set pos (num_bytes 2 le v) buf"

definition setInt32 :: "nat \<Rightarrow> int \<Rightarrow> bool \<Rightarrow> byte list \<Rightarrow> error + byte list" where
  "setInt32 pos v le buf = dataview_set pos (num_bytes 4 le v) buf"

definition setUint32 :: "nat \<Rightarrow> int \<Rightarrow> bool \<Rightarrow> byte list \<Rightarrow> error + byte list" where
  "setUint32 pos v le buf = dataview_set pos (num_bytes 4 le v) buf"

definition setBigInt64 :: "nat \<Rightarrow> int \<Rightarrow> bool \<Rightarrow> byte list \<Rightarrow> error + byte list" where
  "setBigInt64 pos v le buf = dataview_set pos (num_bytes 8 le v) buf"

definition setBigUint64 :: "nat \<Rightarrow> int \<Rightarrow> bool \<Rightarrow> byte list \<Rightarrow> error + byte list" where
  "setBigUint64 pos v le buf = dataview_set pos (num_bytes 8 le v) buf"

text \<open>The float setters take the bit pattern of the value: binary32 after rounding
  for \<^verbatim>\<open>setFloat32\<close>, binary64 for \<^verbatim>\<open>setFloat64\<close>.\<close>

definition setFloat32 :: "nat \<Rightarrow> 32 word \<Rightarrow> bool \<Rightarrow> byte list \<Rightarrow> error + byte list" where
  "setFloat32 pos bits le buf = dataview_set pos (num_bytes 4 le (uint bits)) buf"

definition setFloat64 :: "nat \<Rightarrow> 64 word \<Rightarrow> bool \<Rightarrow> byte list \<Rightarrow> error + byte list" where
  "setFloat64 pos bits le buf = dataview_set pos (num_bytes 8 le (uint bits)) buf"

text \<open>\<^verbatim>\<open>TypedArray.prototype.set(source, offset)\<close> on the \<^verbatim>\<open>Uint8Array\<close> over the
  buffer: throws when the source does not fit.\<close>

definition array_set :: "byte list \<Rightarrow> nat \<Rightarrow> byte list \<Rightarrow> error + byte list" where
  "array_set bs pos buf =
     (if pos + length bs > length buf then Inl RangeError else Inr (write_at pos bs buf))"

text \<open>\<^verbatim>\<open>TypedArray.prototype.fill(0, start, end)\<close>: both ends are clamped to the
  length, nothing is thrown.\<close>

definition array_fill0 :: "nat \<Rightarrow> nat \<Rightarrow> byte list \<Rightarrow> byte list" where
  "array_fill0 start fin buf =
     take start buf
     @ replicate (min fin (length buf) - start) 0
     @ drop (max start (min fin (length buf))) buf"

section \<open>The writer\<close>

record writer =
  littleEndian :: bool
  hostLittleEndian :: bool
  isCDR2 :: bool
  eightByteAlignment :: nat
  buffer :: "byte list"
  offset :: nat
  origin :: nat

text \<open>\<^verbatim>\<open>#array\<close> and \<^verbatim>\<open>#view\<close> are views of \<^verbatim>\<open>#buffer\<close>, replaced together with it
  in \<^verbatim>\<open>#resize\<close>, so the record keeps the buffer only. A method either returns the
  writer or throws; a throw does not undo the field updates made before it, so it
  carries the writer as it stands at the throw.\<close>

datatype outcome = Returns writer | Throws error writer

fun then_do :: "outcome \<Rightarrow> (writer \<Rightarrow> outcome) \<Rightarrow> outcome" where
  "then_do (Returns w) f = f w"
| "then_do (Throws e w) f = Throws e w"

fun state_of :: "outcome \<Rightarrow> writer" where
  "state_of (Returns w) = w"
| "state_of (Throws e w) = w"

fun returns :: "outcome \<Rightarrow> bool" where
  "returns (Returns w) = True"
| "returns (Throws e w) = False"

definition data :: "writer \<Rightarrow> byte list" where
  "data w = take (offset w) (buffer w)"

subsection \<open>Growth\<close>

definition resize :: "byte list \<Rightarrow> nat \<Rightarrow> byte list" where
  "resize buf capacity =
     (if length buf \<ge> capacity then buf
      else buf @ replicate (capacity - length buf) 0)"

text \<open>\<^verbatim>\<open>#resizeIfNeeded\<close>, with the value it reads from \<^verbatim>\<open>#offset\<close> as an argument.
  \<open>None\<close> is the field before its first assignment: it reads as \<^verbatim>\<open>undefined\<close>,
  \<^verbatim>\<open>undefined + additionalBytes\<close> is NaN, and \<^verbatim>\<open>byteLength < NaN\<close> is false.\<close>

definition resizeIfNeeded_at :: "nat option \<Rightarrow> nat \<Rightarrow> byte list \<Rightarrow> byte list" where
  "resizeIfNeeded_at off additionalBytes buf =
     (case off of
        None \<Rightarrow> buf
      | Some off' \<Rightarrow>
          (let capacity = off' + additionalBytes in
           if length buf < capacity then
             (let doubled = length buf * 2;
                  newCapacity = (if doubled > capacity then doubled else capacity)
              in resize buf newCapacity)
           else buf))"

definition resizeIfNeeded :: "writer \<Rightarrow> nat \<Rightarrow> writer" where
  "resizeIfNeeded w additionalBytes =
     w\<lparr>buffer := resizeIfNeeded_at (Some (offset w)) additionalBytes (buffer w)\<rparr>"

subsection \<open>Alignment\<close>

text \<open>The padding of \<^verbatim>\<open>align\<close>. JavaScript's \<^verbatim>\<open>%\<close> yields NaN for a zero
  divisor and a non-positive remainder for a negative dividend; in both cases the
  test \<^verbatim>\<open>alignment > 0\<close> fails and the padding is 0.\<close>

definition align_padding :: "nat \<Rightarrow> nat \<Rightarrow> nat \<Rightarrow> nat" where
  "align_padding off orig sz =
     (if sz = 0 \<or> off < orig then 0
      else (let alignment = (off - orig) mod sz in
            if alignment > 0 then sz - alignment else 0))"

definition align :: "writer \<Rightarrow> nat \<Rightarrow> nat \<Rightarrow> writer" where
  "align w sz bytesToWrite =
     (let padding = align_padding (offset w) (origin w) sz;
          w1 = resizeIfNeeded w (padding + bytesToWrite)
      in w1\<lparr>buffer := array_fill0 (offset w1) (offset w1 + padding) (buffer w1),
             offset := offset w1 + padding\<rparr>)"

subsection \<open>Scalars\<close>

text \<open>The common tail of a scalar write: the setter's result, then
  \<^verbatim>\<open>this.#offset += n\<close>.\<close>

definition advance :: "writer \<Rightarrow> error + byte list \<Rightarrow> nat \<Rightarrow> outcome" where
  "advance w r n =
     (case r of
        Inl e \<Rightarrow> Throws e w
      | Inr buf \<Rightarrow> Returns (w\<lparr>buffer := buf, offset := offset w + n\<rparr>))"

definition int8 :: "writer \<Rightarrow> int \<Rightarrow> outcome" where
  "int8 w v =
     (let w1 = resizeIfNeeded w 1 in advance w1 (setInt8 (offset w1) v (buffer w1)) 1)"

definition uint8 :: "writer \<Rightarrow> int \<Rightarrow> outcome" where
  "uint8 w v =
     (let w1 = resizeIfNeeded w 1 in advance w1 (setUint8 (offset w1) v (buffer w1)) 1)"

definition int16 :: "writer \<Rightarrow> int \<Rightarrow> outcome" where
  "int16 w v =
     (let w1 = align w 2 2
      in advance w1 (setInt16 (offset w1) v (littleEndian w1) (buffer w1)) 2)"

definition uint16 :: "writer \<Rightarrow> int \<Rightarrow> outcome" where
  "uint16 w v =
     (let w1 = align w 2 2
      in advance w1 (setUint16 (offset w1) v (littleEndian w1) (buffer w1)) 2)"

definition int32 :: "writer \<Rightarrow> int \<Rightarrow> outcome" where
  "int32 w v =
     (let w1 = align w 4 4
      in advance w1 (setInt32 (offset w1) v (littleEndian w1) (buffer w1)) 4)"

definition uint32 :: "writer \<Rightarrow> int \<Rightarrow> outcome" where
  "uint32 w v =
     (let w1 = align w 4 4
      in advance w1 (setUint32 (offset w1) v (littleEndian w1) (buffer w1)) 4)"

definition int64 :: "writer \<Rightarrow> int \<Rightarrow> outcome" where
  "int64 w v =
     (let w1 = align w (eightByteAlignment w) 8
      in advance w1 (setBigInt64 (offset w1) v (littleEndian w1) (buffer w1)) 8)"

definition uint64 :: "writer \<Rightarrow> int \<Rightarrow> outcome" where
  "uint64 w v =
     (let w1 = align w (eightByteAlignment w) 8
      in advance w1 (setBigUint64 (offset w1) v (littleEndian w1) (buffer w1)) 8)"

definition uint16BE :: "writer \<Rightarrow> int \<Rightarrow> outcome" where
  "uint16BE w v =
     (let w1 = align w 2 2
      in advance w1 (setUint16 (offset w1) v False (buffer w1)) 2)"

definition uint32BE :: "writer \<Rightarrow> int \<Rightarrow> outcome" where
  "uint32BE w v =
     (let w1 = align w 4 4
      in advance w1 (setUint32 (offset w1) v False (buffer w1)) 4)"

definition uint64BE :: "writer \<Rightarrow> int \<Rightarrow> outcome" where
  "uint64BE w v =
     (let w1 = align w (eightByteAlignment w) 8
      in advance w1 (setBigUint64 (offset w1) v False (buffer w1)) 8)"

definition float32 :: "writer \<Rightarrow> 32 word \<Rightarrow> outcome" where
  "float32 w bits =
     (let w1 = align w 4 4
      in advance w1 (setFloat32 (offset w1) bits (littleEndian w1) (buffer w1)) 4)"

definition float64 :: "writer \<Rightarrow> 64 word \<Rightarrow> outcome" where
  "float64 w bits =
     (let w1 = align w (eightByteAlignment w) 8
      in advance w1 (setFloat64 (offset w1) bits (littleEndian w1) (buffer w1)) 8)"

section \<open>Constants of the modules that the writer imports\<close>

text \<open>Modelled from the spec: \<^verbatim>\<open>EncapsulationKind\<close> (EncapsulationKind.ts is not
  among the sources), the ten kinds and their bytes as the table of section 6 of the
  specification gives them.\<close>

datatype EncapsulationKind =
    CDR_BE | CDR_LE | PL_CDR_BE | PL_CDR_LE
  | CDR2_BE | CDR2_LE | PL_CDR2_BE | PL_CDR2_LE | D_CDR2_BE | D_CDR2_LE

fun kind_byte :: "EncapsulationKind \<Rightarrow> int" where
  "kind_byte CDR_BE = 0x00"
| "kind_byte CDR_LE = 0x01"
| "kind_byte PL_CDR_BE = 0x02"
| "kind_byte PL_CDR_LE = 0x03"
| "kind_byte CDR2_BE = 0x10"
| "kind_byte CDR2_LE = 0x11"
| "kind_byte PL_CDR2_BE = 0x12"
| "kind_byte PL_CDR2_LE = 0x13"
| "kind_byte D_CDR2_BE = 0x14"
| "kind_byte D_CDR2_LE = 0x15"

text \<open>Modelled from the spec: \<^verbatim>\<open>getEncapsulationKindInfo\<close> (getEncapsulationKindInfo.ts
  is not among the sources), the two components the writer reads: whether the kind
  is XCDR2 and whether it is little-endian, by the same table.\<close>

fun getEncapsulationKindInfo :: "EncapsulationKind \<Rightarrow> bool \<times> bool" where
  "getEncapsulationKindInfo CDR_BE = (False, False)"
| "getEncapsulationKindInfo CDR_LE = (False, True)"
| "getEncapsulationKindInfo PL_CDR_BE = (False, False)"
| "getEncapsulationKindInfo PL_CDR_LE = (False, True)"
| "getEncapsulationKindInfo CDR2_BE = (True, False)"
| "getEncapsulationKindInfo CDR2_LE = (True, True)"
| "getEncapsulationKindInfo PL_CDR2_BE = (True, False)"
| "getEncapsulationKindInfo PL_CDR2_LE = (True, True)"
| "getEncapsulationKindInfo D_CDR2_BE = (True, False)"
| "getEncapsulationKindInfo D_CDR2_LE = (True, True)"

text \<open>Modelled from the spec: \<^verbatim>\<open>getLengthCodeForObjectSize\<close> and
  \<^verbatim>\<open>lengthCodeToObjectSizes\<close> (lengthCodes.ts is not among the sources), by
  section 4.2 of the specification: 0 for 1, 1 for 2, 2 for 4, 3 for 8, otherwise 4;
  and the fixed sizes 1, 2, 4, 8 of the codes 0 to 3.\<close>

definition getLengthCodeForObjectSize :: "int \<Rightarrow> int" where
  "getLengthCodeForObjectSize objectSize =
     (if objectSize = 1 then 0
      else if objectSize = 2 then 1
      else if objectSize = 4 then 2
      else if objectSize = 8 then 3
      else 4)"

definition lengthCodeToObjectSizes :: "int \<Rightarrow> int" where
  "lengthCodeToObjectSizes lc =
     (if lc = 0 then 1 else if lc = 1 then 2 else if lc = 2 then 4 else 8)"

text \<open>Modelled from the spec: the reserved parameter ids of reservedPIDs.ts (not
  among the sources), by section 4.5 of the specification.\<close>

definition EXTENDED_PID :: int where
  "EXTENDED_PID = 0x3F01"

definition SENTINEL_PID :: int where
  "SENTINEL_PID = 0x3F02"

definition DEFAULT_CAPACITY :: nat where
  "DEFAULT_CAPACITY = 16"

definition BUFFER_COPY_THRESHOLD :: nat where
  "BUFFER_COPY_THRESHOLD = 10"

section \<open>Construction\<close>

record CdrWriterOpts =
  opt_buffer :: "byte list option"
  opt_size :: "nat option"
  opt_kind :: "EncapsulationKind option"

text \<open>The first argument is the answer of the host's byte-order probe
  \<^verbatim>\<open>isBigEndian()\<close>. The call \<^verbatim>\<open>this.#resizeIfNeeded(4)\<close> stands before the
  assignment \<^verbatim>\<open>this.#offset = 4\<close>, so it reads the unassigned field. A constructor
  that throws yields no object.\<close>

definition initial_buffer :: "CdrWriterOpts \<Rightarrow> byte list" where
  "initial_buffer options =
     (case opt_buffer options of
        Some b \<Rightarrow> b
      | None \<Rightarrow>
          (case opt_size options of
             Some n \<Rightarrow> replicate n 0
           | None \<Rightarrow> replicate DEFAULT_CAPACITY 0))"

definition constructor :: "bool \<Rightarrow> CdrWriterOpts \<Rightarrow> error + writer" where
  "constructor hostBigEndian options =
     (let buffer0 = initial_buffer options;
          kind = (case opt_kind options of Some k \<Rightarrow> k | None \<Rightarrow> CDR_LE);
          info = getEncapsulationKindInfo kind;
          buffer1 = resizeIfNeeded_at None 4 buffer0
      in case setUint8 0 0 buffer1 of
           Inl e \<Rightarrow> Inl e
         | Inr buffer2 \<Rightarrow>
             (case setUint8 1 (kind_byte kind) buffer2 of
                Inl e \<Rightarrow> Inl e
              | Inr buffer3 \<Rightarrow>
                  (case setUint16 2 0 False buffer3 of
                     Inl e \<Rightarrow> Inl e
                   | Inr buffer4 \<Rightarrow>
                       Inr \<lparr>littleEndian = snd info,
                            hostLittleEndian = \<not> hostBigEndian,
                            isCDR2 = fst info,
                            eightByteAlignment = (if fst info then 4 else 8),
                            buffer = buffer4,
                            offset = 4,
                            origin = 4\<rparr>)))"

section \<open>Strings\<close>

text \<open>A JavaScript string is its list of UTF-16 code units, each a number from 0 to
  \<open>0xFFFF\<close>; \<^verbatim>\<open>value.length\<close> is the length of that list.
  \<^verbatim>\<open>TextEncoder.encodeInto\<close> (WHATWG Encoding) reads the string as scalar values, a
  lone surrogate as U+FFFD, and writes the UTF-8 bytes of each scalar value in turn
  as long as all of them fit the destination.\<close>

type_synonym jsstring = "int list"

definition is_high_surrogate :: "int \<Rightarrow> bool" where
  "is_high_surrogate u = (0xD800 \<le> u \<and> u < 0xDC00)"

definition is_low_surrogate :: "int \<Rightarrow> bool" where
  "is_low_surrogate u = (0xDC00 \<le> u \<and> u < 0xE000)"

fun scalar_values :: "jsstring \<Rightarrow> int list" where
  "scalar_values [] = []"
| "scalar_values [u] =
     (if is_high_surrogate u \<or> is_low_surrogate u then [0xFFFD] else [u])"
| "scalar_values (u # v # us) =
     (if is_high_surrogate u \<and> is_low_surrogate v
      then (0x10000 + (u - 0xD800) * 0x400 + (v - 0xDC00)) # scalar_values us
      else if is_high_surrogate u \<or> is_low_surrogate u
      then 0xFFFD # scalar_values (v # us)
      else u # scalar_values (v # us))"

definition utf8_encode :: "int \<Rightarrow> byte list" where
  "utf8_encode c =
     (if c < 0x80 then [word_of_int c]
      else if c < 0x800 then
        [word_of_int (0xC0 + c div 0x40), word_of_int (0x80 + c mod 0x40)]
      else if c < 0x10000 then
        [word_of_int (0xE0 + c div 0x1000), word_of_int (0x80 + c div 0x40 mod 0x40),
         word_of_int (0x80 + c mod 0x40)]
      else
        [word_of_int (0xF0 + c div 0x40000), word_of_int (0x80 + c div 0x1000 mod 0x40),
         word_of_int (0x80 + c div 0x40 mod 0x40), word_of_int (0x80 + c mod 0x40)])"

definition utf8 :: "jsstring \<Rightarrow> byte list" where
  "utf8 v = concat (map utf8_encode (scalar_values v))"

fun encode_while_fits :: "int list \<Rightarrow> nat \<Rightarrow> byte list" where
  "encode_while_fits [] room = []"
| "encode_while_fits (c # cs) room =
     (let bs = utf8_encode c in
      if length bs \<le> room then bs @ encode_while_fits cs (room - length bs) else [])"

definition encodeInto :: "jsstring \<Rightarrow> nat \<Rightarrow> byte list" where
  "encodeInto v room = encode_while_fits (scalar_values v) room"

text \<open>\<^verbatim>\<open>new Uint8Array(buffer, byteOffset, length)\<close> throws when the window does not
  lie inside the buffer.\<close>

definition uint8array_window :: "nat \<Rightarrow> nat \<Rightarrow> byte list \<Rightarrow> error + unit" where
  "uint8array_window pos len buf =
     (if pos + len > length buf then Inl RangeError else Inr ())"

definition string_w :: "writer \<Rightarrow> jsstring \<Rightarrow> bool \<Rightarrow> outcome" where
  "string_w w v writeLength =
     (let strlen = length v in
      then_do (if writeLength then uint32 w (int strlen + 1) else Returns w)
        (\<lambda>w1.
           let w2 = resizeIfNeeded w1 (strlen + 1) in
           case uint8array_window (offset w2) strlen (buffer w2) of
             Inl e \<Rightarrow> Throws e w2
           | Inr u \<Rightarrow>
               (let w3 = w2\<lparr>buffer :=
                            write_at (offset w2) (encodeInto v strlen) (buffer w2)\<rparr>
                in advance w3 (setUint8 (offset w3 + strlen) 0 (buffer w3)) (strlen + 1))))"

section \<open>Headers\<close>

definition dHeader :: "writer \<Rightarrow> int \<Rightarrow> outcome" where
  "dHeader w objectSize = (let header = objectSize in uint32 w header)"

definition sequenceLength :: "writer \<Rightarrow> int \<Rightarrow> outcome" where
  "sequenceLength w v = uint32 w v"

definition resetOrigin :: "writer \<Rightarrow> writer" where
  "resetOrigin w = w\<lparr>origin := offset w\<rparr>"

definition memberHeaderV1 :: "writer \<Rightarrow> bool \<Rightarrow> int \<Rightarrow> int \<Rightarrow> outcome" where
  "memberHeaderV1 w mustUnderstand mid objectSize =
     (let w0 = align w 4 4;
          mustUnderstandFlag = (if mustUnderstand then js_shl 1 14 else 0);
          shouldUseExtendedPID = (mid > 0x3f00 \<or> objectSize > 0xffff)
      in then_do
           (if \<not> shouldUseExtendedPID then
              (let idHeader = js_or mustUnderstandFlag mid in
               then_do (uint16 w0 idHeader)
                 (\<lambda>w1. let objectSizeHeader = js_and objectSize 0xffff
                       in uint16 w1 objectSizeHeader))
            else
              (let extendedHeader = js_or mustUnderstandFlag EXTENDED_PID in
               then_do (uint16 w0 extendedHeader)
                 (\<lambda>w1. then_do (uint16 w1 8)
                   (\<lambda>w2. then_do (uint32 w2 mid)
                     (\<lambda>w3. uint32 w3 objectSize)))))
           (\<lambda>w4. Returns (resetOrigin w4)))"

definition memberHeaderV2 :: "writer \<Rightarrow> bool \<Rightarrow> int \<Rightarrow> int \<Rightarrow> int option \<Rightarrow> outcome" where
  "memberHeaderV2 w mustUnderstand mid objectSize lengthCode =
     (if mid > 0x0fffffff then Throws IdTooLarge w
      else
        (let mustUnderstandFlag = (if mustUnderstand then js_shl 1 31 else 0);
             finalLengthCode =
               (case lengthCode of
                  Some lc \<Rightarrow> lc
                | None \<Rightarrow> getLengthCodeForObjectSize objectSize);
             header = js_or (js_or mustUnderstandFlag (js_shl finalLengthCode 28)) mid
         in then_do (uint32 w header)
              (\<lambda>w1.
                 if finalLengthCode = 0 \<or> finalLengthCode = 1
                    \<or> finalLengthCode = 2 \<or> finalLengthCode = 3 then
                   (let shouldBeSize = lengthCodeToObjectSizes finalLengthCode in
                    if objectSize \<noteq> shouldBeSize
                    then Throws (SizeNotFixed finalLengthCode shouldBeSize) w1
                    else Returns w1)
                 else if finalLengthCode = 4 \<or> finalLengthCode = 5 then
                   uint32 w1 objectSize
                 else if finalLengthCode = 6 then
                   (if objectSize mod 4 \<noteq> 0 then Throws SizeNotMultipleOf4 w1
                    else uint32 w1 (js_sar objectSize 2))
                 else if finalLengthCode = 7 then
                   (if objectSize mod 8 \<noteq> 0 then Throws SizeNotMultipleOf8 w1
                    else uint32 w1 (js_sar objectSize 3))
                 else Throws (UnexpectedLengthCode finalLengthCode) w1)))"

definition emHeader :: "writer \<Rightarrow> bool \<Rightarrow> int \<Rightarrow> int \<Rightarrow> int option \<Rightarrow> outcome" where
  "emHeader w mustUnderstand mid objectSize lengthCode =
     (if isCDR2 w then memberHeaderV2 w mustUnderstand mid objectSize lengthCode
      else memberHeaderV1 w mustUnderstand mid objectSize)"

definition sentinelHeader :: "writer \<Rightarrow> outcome" where
  "sentinelHeader w =
     (if \<not> isCDR2 w then
        (let w0 = align w 4 4 in
         then_do (uint16 w0 SENTINEL_PID) (\<lambda>w1. uint16 w1 0))
      else Returns w)"


section \<open>Typed arrays\<close>

text \<open>An array argument is either a typed view of the matching element type (its
  elements as bit patterns) or a plain array. The bytes behind a typed view are its
  elements in the byte order of the host.\<close>

datatype ('t, 'p) arr = TypedView "'t list" | Plain "'p list"

fun arr_length :: "('t, 'p) arr \<Rightarrow> nat" where
  "arr_length (TypedView xs) = length xs"
| "arr_length (Plain ns) = length ns"

definition view_bytes :: "nat \<Rightarrow> bool \<Rightarrow> int list \<Rightarrow> byte list" where
  "view_bytes bytesPerElement hostLE xs = concat (map (num_bytes bytesPerElement hostLE) xs)"

text \<open>\<^verbatim>\<open>for (const entry of value) this.op(entry)\<close>.\<close>

fun for_each :: "(writer \<Rightarrow> 'a \<Rightarrow> outcome) \<Rightarrow> writer \<Rightarrow> 'a list \<Rightarrow> outcome" where
  "for_each f w [] = Returns w"
| "for_each f w (x # xs) = then_do (f w x) (\<lambda>w1. for_each f w1 xs)"

text \<open>The bulk copy, the same statements in each of the eight array methods of
  width two and more: \<^verbatim>\<open>align(value.BYTES_PER_ELEMENT, value.byteLength)\<close>, then
  \<^verbatim>\<open>#array.set\<close> of the view's bytes, then \<^verbatim>\<open>#offset += value.byteLength\<close>.\<close>

definition bulk_copy :: "writer \<Rightarrow> nat \<Rightarrow> byte list \<Rightarrow> outcome" where
  "bulk_copy w bytesPerElement bytes =
     (let byteLength = length bytes;
          w1 = align w bytesPerElement byteLength
      in advance w1 (array_set bytes (offset w1) (buffer w1)) byteLength)"

definition write_length :: "writer \<Rightarrow> bool \<Rightarrow> nat \<Rightarrow> outcome" where
  "write_length w writeLength n = (if writeLength then sequenceLength w (int n) else Returns w)"

definition fast_path :: "writer \<Rightarrow> nat \<Rightarrow> bool" where
  "fast_path w n = (littleEndian w = hostLittleEndian w \<and> n \<ge> BUFFER_COPY_THRESHOLD)"

definition int8Array :: "writer \<Rightarrow> (8 word, int) arr \<Rightarrow> bool \<Rightarrow> outcome" where
  "int8Array w v writeLength =
     then_do (write_length w writeLength (arr_length v))
       (\<lambda>w1. let w2 = resizeIfNeeded w1 (arr_length v);
                 bytes = (case v of TypedView xs \<Rightarrow> xs | Plain ns \<Rightarrow> map word_of_int ns)
             in advance w2 (array_set bytes (offset w2) (buffer w2)) (arr_length v))"

definition uint8Array :: "writer \<Rightarrow> (8 word, int) arr \<Rightarrow> bool \<Rightarrow> outcome" where
  "uint8Array w v writeLength =
     then_do (write_length w writeLength (arr_length v))
       (\<lambda>w1. let w2 = resizeIfNeeded w1 (arr_length v);
                 bytes = (case v of TypedView xs \<Rightarrow> xs | Plain ns \<Rightarrow> map word_of_int ns)
             in advance w2 (array_set bytes (offset w2) (buffer w2)) (arr_length v))"

definition int16Array :: "writer \<Rightarrow> (16 word, int) arr \<Rightarrow> bool \<Rightarrow> outcome" where
  "int16Array w v writeLength =
     then_do (write_length w writeLength (arr_length v))
       (\<lambda>w1. case v of
           TypedView xs \<Rightarrow>
             if fast_path w1 (length xs)
             then bulk_copy w1 2 (view_bytes 2 (hostLittleEndian w1) (map uint xs))
             else for_each int16 w1 (map sint xs)
         | Plain ns \<Rightarrow> for_each int16 w1 ns)"

definition uint16Array :: "writer \<Rightarrow> (16 word, int) arr \<Rightarrow> bool \<Rightarrow> outcome" where
  "uint16Array w v writeLength =
     then_do (write_length w writeLength (arr_length v))
       (\<lambda>w1. case v of
           TypedView xs \<Rightarrow>
             if fast_path w1 (length xs)
             then bulk_copy w1 2 (view_bytes 2 (hostLittleEndian w1) (map uint xs))
             else for_each uint16 w1 (map uint xs)
         | Plain ns \<Rightarrow> for_each uint16 w1 ns)"

definition int32Array :: "writer \<Rightarrow> (32 word, int) arr \<Rightarrow> bool \<Rightarrow> outcome" where
  "int32Array w v writeLength =
     then_do (write_length w writeLength (arr_length v))
       (\<lambda>w1. case v of
           TypedView xs \<Rightarrow>
             if fast_path w1 (length xs)
             then bulk_copy w1 4 (view_bytes 4 (hostLittleEndian w1) (map uint xs))
             else for_each int32 w1 (map sint xs)
         | Plain ns \<Rightarrow> for_each int32 w1 ns)"

definition uint32Array :: "writer \<Rightarrow> (32 word, int) arr \<Rightarrow> bool \<Rightarrow> outcome" where
  "uint32Array w v writeLength =
     then_do (write_length w writeLength (arr_length v))
       (\<lambda>w1. case v of
           TypedView xs \<Rightarrow>
             if fast_path w1 (length xs)
             then bulk_copy w1 4 (view_bytes 4 (hostLittleEndian w1) (map uint xs))
             else for_each uint32 w1 (map uint xs)
         | Plain ns \<Rightarrow> for_each uint32 w1 ns)"

definition int64Array :: "writer \<Rightarrow> (64 word, int) arr \<Rightarrow> bool \<Rightarrow> outcome" where
  "int64Array w v writeLength =
     then_do (write_length w writeLength (arr_length v))
       (\<lambda>w1. case v of
           TypedView xs \<Rightarrow>
             if fast_path w1 (length xs)
             then bulk_copy w1 8 (view_bytes 8 (hostLittleEndian w1) (map uint xs))
             else for_each int64 w1 (map sint xs)
         | Plain ns \<Rightarrow> for_each int64 w1 ns)"

definition uint64Array :: "writer \<Rightarrow> (64 word, int) arr \<Rightarrow> bool \<Rightarrow> outcome" where
  "uint64Array w v writeLength =
     then_do (write_length w writeLength (arr_length v))
       (\<lambda>w1. case v of
           TypedView xs \<Rightarrow>
             if fast_path w1 (length xs)
             then bulk_copy w1 8 (view_bytes 8 (hostLittleEndian w1) (map uint xs))
             else for_each uint64 w1 (map uint xs)
         | Plain ns \<Rightarrow> for_each uint64 w1 ns)"

definition float32Array :: "writer \<Rightarrow> (32 word, 32 word) arr \<Rightarrow> bool \<Rightarrow> outcome" where
  "float32Array w v writeLength =
     then_do (write_length w writeLength (arr_length v))
       (\<lambda>w1. case v of
           TypedView xs \<Rightarrow>
             if fast_path w1 (length xs)
             then bulk_copy w1 4 (view_bytes 4 (hostLittleEndian w1) (map uint xs))
             else for_each float32 w1 xs
         | Plain ns \<Rightarrow> for_each float32 w1 ns)"

definition float64Array :: "writer \<Rightarrow> (64 word, 64 word) arr \<Rightarrow> bool \<Rightarrow> outcome" where
  "float64Array w v writeLength =
     then_do (write_length w writeLength (arr_length v))
       (\<lambda>w1. case v of
           TypedView xs \<Rightarrow>
             if fast_path w1 (length xs)
             then bulk_copy w1 8 (view_bytes 8 (hostLittleEndian w1) (map uint xs))
             else for_each float64 w1 xs
         | Plain ns \<Rightarrow> for_each float64 w1 ns)"

section \<open>Calls and call sequences\<close>

datatype scalar =
    Int8 int | Uint8 int | Int16 int | Uint16 int | Int32 int | Uint32 int
  | Int64 int | Uint64 int | Uint16BE int | Uint32BE int | Uint64BE int
  | Float32 "32 word" | Float64 "64 word"

fun write_scalar :: "writer \<Rightarrow> scalar \<Rightarrow> outcome" where
  "write_scalar w (Int8 v) = int8 w v"
| "write_scalar w (Uint8 v) = uint8 w v"
| "write_scalar w (Int16 v) = int16 w v"
| "write_scalar w (Uint16 v) = uint16 w v"
| "write_scalar w (Int32 v) = int32 w v"
| "write_scalar w (Uint32 v) = uint32 w v"
| "write_scalar w (Int64 v) = int64 w v"
| "write_scalar w (Uint64 v) = uint64 w v"
| "write_scalar w (Uint16BE v) = uint16BE w v"
| "write_scalar w (Uint32BE v) = uint32BE w v"
| "write_scalar w (Uint64BE v) = uint64BE w v"
| "write_scalar w (Float32 b) = float32 w b"
| "write_scalar w (Float64 b) = float64 w b"

fun width :: "scalar \<Rightarrow> nat" where
  "width (Int8 v) = 1"
| "width (Uint8 v) = 1"
| "width (Int16 v) = 2"
| "width (Uint16 v) = 2"
| "width (Int32 v) = 4"
| "width (Uint32 v) = 4"
| "width (Int64 v) = 8"
| "width (Uint64 v) = 8"
| "width (Uint16BE v) = 2"
| "width (Uint32BE v) = 4"
| "width (Uint64BE v) = 8"
| "width (Float32 b) = 4"
| "width (Float64 b) = 8"

text \<open>The alignment table of the specification: the width of the type, except that
  an 8-byte type aligns to 4 under XCDR2.\<close>

definition table_alignment :: "bool \<Rightarrow> scalar \<Rightarrow> nat" where
  "table_alignment xcdr2 s = (if width s = 8 \<and> xcdr2 then 4 else width s)"

datatype call =
    Scalar scalar
  | String jsstring bool
  | DHeader int
  | EmHeader bool int int "int option"
  | SentinelHeader
  | SequenceLength int
  | Int8Array "(8 word, int) arr" bool
  | Uint8Array "(8 word, int) arr" bool
  | Int16Array "(16 word, int) arr" bool
  | Uint16Array "(16 word, int) arr" bool
  | Int32Array "(32 word, int) arr" bool
  | Uint32Array "(32 word, int) arr" bool
  | Int64Array "(64 word, int) arr" bool
  | Uint64Array "(64 word, int) arr" bool
  | Float32Array "(32 word, 32 word) arr" bool
  | Float64Array "(64 word, 64 word) arr" bool
  | Align nat nat

fun exec :: "writer \<Rightarrow> call \<Rightarrow> outcome" where
  "exec w (Scalar s) = write_scalar w s"
| "exec w (String v writeLength) = string_w w v writeLength"
| "exec w (DHeader objectSize) = dHeader w objectSize"
| "exec w (EmHeader mu mid objectSize lengthCode) = emHeader w mu mid objectSize lengthCode"
| "exec w SentinelHeader = sentinelHeader w"
| "exec w (SequenceLength v) = sequenceLength w v"
| "exec w (Int8Array v writeLength) = int8Array w v writeLength"
| "exec w (Uint8Array v writeLength) = uint8Array w v writeLength"
| "exec w (Int16Array v writeLength) = int16Array w v writeLength"
| "exec w (Uint16Array v writeLength) = uint16Array w v writeLength"
| "exec w (Int32Array v writeLength) = int32Array w v writeLength"
| "exec w (Uint32Array v writeLength) = uint32Array w v writeLength"
| "exec w (Int64Array v writeLength) = int64Array w v writeLength"
| "exec w (Uint64Array v writeLength) = uint64Array w v writeLength"
| "exec w (Float32Array v writeLength) = float32Array w v writeLength"
| "exec w (Float64Array v writeLength) = float64Array w v writeLength"
| "exec w (Align sz bytesToWrite) = Returns (align w sz bytesToWrite)"

fun run :: "writer \<Rightarrow> call list \<Rightarrow> outcome" where
  "run w [] = Returns w"
| "run w (c # cs) = then_do (exec w c) (\<lambda>w1. run w1 cs)"

text \<open>The invariant of the specification's data model.\<close>

definition inv :: "writer \<Rightarrow> bool" where
  "inv w = (origin w \<le> offset w \<and> offset w \<le> length (buffer w))"


text \<open>The bytes of a scalar's value in the stream: the value's low bytes in the
  stream's byte order, or big-endian for the \<^verbatim>\<open>BE\<close> calls.\<close>

fun scalar_bytes :: "bool \<Rightarrow> scalar \<Rightarrow> byte list" where
  "scalar_bytes le (Int8 v) = num_bytes 1 le v"
| "scalar_bytes le (Uint8 v) = num_bytes 1 le v"
| "scalar_bytes le (Int16 v) = num_bytes 2 le v"
| "scalar_bytes le (Uint16 v) = num_bytes 2 le v"
| "scalar_bytes le (Int32 v) = num_bytes 4 le v"
| "scalar_bytes le (Uint32 v) = num_bytes 4 le v"
| "scalar_bytes le (Int64 v) = num_bytes 8 le v"
| "scalar_bytes le (Uint64 v) = num_bytes 8 le v"
| "scalar_bytes le (Uint16BE v) = num_bytes 2 False v"
| "scalar_bytes le (Uint32BE v) = num_bytes 4 False v"
| "scalar_bytes le (Uint64BE v) = num_bytes 8 False v"
| "scalar_bytes le (Float32 b) = num_bytes 4 le (uint b)"
| "scalar_bytes le (Float64 b) = num_bytes 8 le (uint b)"

text \<open>The binary64 pattern of the number 1.0: sign 0, biased exponent 1023,
  fraction 0.\<close>

definition float64_one :: "64 word" where
  "float64_one = 0x3FF0000000000000"

text \<open>The data of a writer constructed with the given options after a sequence of
  calls, when the construction and every call return.\<close>

definition written :: "error + writer \<Rightarrow> call list \<Rightarrow> byte list option" where
  "written c cs =
     (case c of
        Inl e \<Rightarrow> None
      | Inr w \<Rightarrow> (case run w cs of Returns w1 \<Rightarrow> Some (data w1) | Throws e w1 \<Rightarrow> None))"

text \<open>What the constructor fixes for good: 64-bit values align to 4 under XCDR2 and
  to 8 under XCDR1.\<close>

definition configured :: "writer \<Rightarrow> bool" where
  "configured w = (eightByteAlignment w = (if isCDR2 w then 4 else 8))"

section \<open>Relations between the writer before and after a call\<close>

text \<open>The fields fixed at construction.\<close>

definition same_config :: "writer \<Rightarrow> writer \<Rightarrow> bool" where
  "same_config w w' =
     (littleEndian w' = littleEndian w \<and> hostLittleEndian w' = hostLittleEndian w
      \<and> isCDR2 w' = isCDR2 w \<and> eightByteAlignment w' = eightByteAlignment w)"

text \<open>What every call keeps: the configuration, the bytes below the offset it
  started at, and the invariant; offsets, origins and capacities never decrease.\<close>

definition frame :: "writer \<Rightarrow> writer \<Rightarrow> bool" where
  "frame w w' =
     (same_config w w' \<and> offset w \<le> offset w' \<and> origin w \<le> origin w' \<and> inv w'
      \<and> length (buffer w) \<le> length (buffer w')
      \<and> take (offset w) (buffer w') = take (offset w) (buffer w))"

text \<open>A call that returns and keeps the frame.\<close>

definition ok_step :: "writer \<Rightarrow> outcome \<Rightarrow> bool" where
  "ok_step w out = (returns out \<and> frame w (state_of out))"

text \<open>A call that returns with exactly the bytes \<open>bs\<close> appended to the data and the
  origin where it was.\<close>

definition appends :: "writer \<Rightarrow> outcome \<Rightarrow> byte list \<Rightarrow> bool" where
  "appends w out bs =
     (returns out \<and> same_config w (state_of out) \<and> inv (state_of out)
      \<and> origin (state_of out) = origin w
      \<and> offset (state_of out) = offset w + length bs
      \<and> length (buffer w) \<le> length (buffer (state_of out))
      \<and> data (state_of out) = data w @ bs)"

text \<open>An offset that is a multiple of \<open>a\<close> from the origin: a write aligned to \<open>a\<close>
  needs no padding there.\<close>

definition aligned :: "nat \<Rightarrow> writer \<Rightarrow> bool" where
  "aligned a w = (inv w \<and> (offset w - origin w) mod a = 0)"

text \<open>The member headers as the specification words them, with the bitwise
  operators of \<^typ>\<open>int\<close> (two's complement of unbounded width).\<close>

definition xcdr1_header_bytes :: "bool \<Rightarrow> bool \<Rightarrow> int \<Rightarrow> int \<Rightarrow> byte list" where
  "xcdr1_header_bytes le mustUnderstand mid objectSize =
     (if mid \<le> 0x3F00 \<and> objectSize \<le> 0xFFFF then
        num_bytes 2 le ((if mustUnderstand then 0x4000 else 0) OR mid)
        @ num_bytes 2 le objectSize
      else
        num_bytes 2 le ((if mustUnderstand then 0x4000 else 0) OR EXTENDED_PID)
        @ num_bytes 2 le 8 @ num_bytes 4 le mid @ num_bytes 4 le objectSize)"

definition xcdr2_header_word :: "bool \<Rightarrow> int \<Rightarrow> int \<Rightarrow> int" where
  "xcdr2_header_word mustUnderstand lc mid =
     (if mustUnderstand then 0x80000000 else 0) OR push_bit 28 lc OR mid"

text \<open>The length code that \<^verbatim>\<open>emHeader\<close> settles on: the one supplied, else the
  smallest of 0 to 4 that fits the size.\<close>

definition final_length_code :: "int \<Rightarrow> int option \<Rightarrow> int" where
  "final_length_code objectSize lengthCode =
     (case lengthCode of
        Some lc \<Rightarrow> lc
      | None \<Rightarrow>
          (if objectSize = 1 then 0 else if objectSize = 2 then 1
           else if objectSize = 4 then 2 else if objectSize = 8 then 3 else 4))"

text \<open>Options used in the examples: none given, a requested size, and a kind.\<close>

definition default_options :: CdrWriterOpts where
  "default_options = \<lparr>opt_buffer = None, opt_size = None, opt_kind = None\<rparr>"

definition sized_options :: "nat \<Rightarrow> CdrWriterOpts" where
  "sized_options n = \<lparr>opt_buffer = None, opt_size = Some n, opt_kind = None\<rparr>"

definition kind_options :: "EncapsulationKind \<Rightarrow> CdrWriterOpts" where
  "kind_options k = \<lparr>opt_buffer = None, opt_size = None, opt_kind = Some k\<rparr>"

text \<open>The writer that \<^verbatim>\<open>new CdrWriter({ kind })\<close> yields on a little-endian host.\<close>

definition fresh :: "EncapsulationKind \<Rightarrow> writer" where
  "fresh k =
     \<lparr>littleEndian = snd (getEncapsulationKindInfo k),
      hostLittleEndian = True,
      isCDR2 = fst (getEncapsulationKindInfo k),
      eightByteAlignment = (if fst (getEncapsulationKindInfo k) then 4 else 8),
      buffer = [0, word_of_int (kind_byte k), 0, 0] @ replicate 12 0,
      offset = 4,
      origin = 4\<rparr>"

text \<open>A call sequence used in the examples.\<close>

definition sample_calls :: "call list" where
  "sample_calls =
     [Scalar (Uint8 1), EmHeader True 0x12 4 None, Scalar (Float64 float64_one)]"

text \<open>A \<^verbatim>\<open>BigInt64Array\<close> of the ten elements 1 to 10.\<close>

definition ten_int64 :: "64 word list" where
  "ten_int64 = [1, 2, 3, 4, 5, 6, 7, 8, 9, 10]"

section \<open>Buffers: writing, filling and growing\<close>

lemma length_le_bytes: "length (le_bytes n v) = n"
  by (induction n arbitrary: v) simp_all

lemma length_num_bytes [simp]: "length (num_bytes n le v) = n"
  by (simp add: num_bytes_def length_le_bytes)

lemma length_write_at: "pos + length bs \<le> length buf \<Longrightarrow> length (write_at pos bs buf) = length buf"
  by (simp add: write_at_def)

lemma take_write_at_below: "k \<le> pos \<Longrightarrow> pos \<le> length buf \<Longrightarrow> take k (write_at pos bs buf) = take k buf"
  by (simp add: write_at_def min_def)

lemma take_write_at_end:
  "pos + length bs \<le> length buf \<Longrightarrow> take (pos + length bs) (write_at pos bs buf) = take pos buf @ bs"
  by (simp add: write_at_def)

lemma length_array_fill0 [simp]: "length (array_fill0 s e buf) = length buf"
  by (auto simp: array_fill0_def min_def max_def)

lemma take_array_fill0_below: "k \<le> s \<Longrightarrow> take k (array_fill0 s e buf) = take k buf"
  by (simp add: array_fill0_def min_def)

lemma take_array_fill0_end:
  "s \<le> e \<Longrightarrow> e \<le> length buf \<Longrightarrow> take e (array_fill0 s e buf) = take s buf @ replicate (e - s) 0"
  by (simp add: array_fill0_def min_def)

lemma resize_append: "resize buf c = buf @ replicate (c - length buf) 0"
  by (simp add: resize_def)

lemma resizeIfNeeded_at_append:
  "resizeIfNeeded_at (Some off) n buf =
     buf @ replicate ((if length buf < off + n then max (2 * length buf) (off + n) else length buf) - length buf) 0"
  by (auto simp: resizeIfNeeded_at_def resize_def Let_def max_def)

lemma length_resizeIfNeeded_at:
  "length (resizeIfNeeded_at (Some off) n buf) =
     (if length buf < off + n then max (2 * length buf) (off + n) else length buf)"
  by (simp add: resizeIfNeeded_at_def resize_def Let_def max_def)

lemma resizeIfNeeded_at_enough: "off + n \<le> length (resizeIfNeeded_at (Some off) n buf)"
  by (simp add: length_resizeIfNeeded_at)

lemma resizeIfNeeded_at_grows: "length buf \<le> length (resizeIfNeeded_at (Some off) n buf)"
  by (auto simp: length_resizeIfNeeded_at)

lemma take_resizeIfNeeded_at:
  "k \<le> length buf \<Longrightarrow> take k (resizeIfNeeded_at (Some off) n buf) = take k buf"
  by (simp add: resizeIfNeeded_at_append)

lemma frame_refl: "inv w \<Longrightarrow> frame w w"
  by (simp add: frame_def same_config_def)

lemma frame_trans: "frame a b \<Longrightarrow> frame b c \<Longrightarrow> frame a c"
proof -
  assume ab: "frame a b" and bc: "frame b c"
  have "take (offset a) (buffer c) = take (offset a) (take (offset b) (buffer c))"
    using ab by (simp add: frame_def min_def)
  also have "\<dots> = take (offset a) (take (offset b) (buffer b))"
    using bc by (simp add: frame_def)
  also have "\<dots> = take (offset a) (buffer a)"
    using ab by (simp add: frame_def min_def)
  finally show ?thesis
    using ab bc by (simp add: frame_def same_config_def)
qed

lemma frame_inv: "frame w w' \<Longrightarrow> inv w'"
  by (simp add: frame_def)

lemma frame_resizeIfNeeded: "inv w \<Longrightarrow> frame w (resizeIfNeeded w n)"
  by (simp add: frame_def same_config_def inv_def resizeIfNeeded_def
      take_resizeIfNeeded_at resizeIfNeeded_at_grows le_trans [OF _ resizeIfNeeded_at_grows])

lemma resizeIfNeeded_room: "offset w + n \<le> length (buffer (resizeIfNeeded w n))"
  by (simp add: resizeIfNeeded_def resizeIfNeeded_at_enough)

lemma resizeIfNeeded_fields [simp]:
  "offset (resizeIfNeeded w n) = offset w" "origin (resizeIfNeeded w n) = origin w"
  "littleEndian (resizeIfNeeded w n) = littleEndian w"
  "hostLittleEndian (resizeIfNeeded w n) = hostLittleEndian w"
  "isCDR2 (resizeIfNeeded w n) = isCDR2 w"
  "eightByteAlignment (resizeIfNeeded w n) = eightByteAlignment w"
  by (simp_all add: resizeIfNeeded_def)

lemma align_fields [simp]:
  "offset (align w a n) = offset w + align_padding (offset w) (origin w) a"
  "origin (align w a n) = origin w"
  "littleEndian (align w a n) = littleEndian w"
  "hostLittleEndian (align w a n) = hostLittleEndian w"
  "isCDR2 (align w a n) = isCDR2 w"
  "eightByteAlignment (align w a n) = eightByteAlignment w"
  by (simp_all add: align_def Let_def)

lemma length_buffer_align:
  "length (buffer (align w a n)) =
     length (buffer (resizeIfNeeded w (align_padding (offset w) (origin w) a + n)))"
  by (simp add: align_def Let_def)

lemma align_room: "offset (align w a n) + n \<le> length (buffer (align w a n))"
  using resizeIfNeeded_room [of w "align_padding (offset w) (origin w) a + n"]
  by (simp add: length_buffer_align)

lemma align_grows: "length (buffer w) \<le> length (buffer (align w a n))"
  by (simp add: length_buffer_align resizeIfNeeded_def resizeIfNeeded_at_grows)

lemma data_align:
  assumes "inv w"
  shows "data (align w a n) = data w @ replicate (align_padding (offset w) (origin w) a) 0"
proof -
  let ?p = "align_padding (offset w) (origin w) a"
  let ?b = "buffer (resizeIfNeeded w (?p + n))"
  have room: "offset w + ?p \<le> length ?b"
    using resizeIfNeeded_room [of w "?p + n"] by simp
  have "data (align w a n) = take (offset w + ?p) (array_fill0 (offset w) (offset w + ?p) ?b)"
    by (simp add: data_def align_def Let_def)
  also have "\<dots> = take (offset w) ?b @ replicate ?p 0"
    using room by (simp add: take_array_fill0_end)
  also have "take (offset w) ?b = take (offset w) (buffer w)"
    using assms by (simp add: resizeIfNeeded_def take_resizeIfNeeded_at inv_def)
  finally show ?thesis by (simp add: data_def)
qed

lemma inv_align: "inv w \<Longrightarrow> inv (align w a n)"
  using align_room [of w a n] by (simp add: inv_def)

lemma frame_align: "inv w \<Longrightarrow> frame w (align w a n)"
proof -
  assume i: "inv w"
  have "take (offset w) (buffer (align w a n)) = take (offset w) (data (align w a n))"
    by (simp add: data_def min_def)
  also have "\<dots> = take (offset w) (buffer w)"
    using i by (simp add: data_align) (simp add: data_def inv_def)
  finally show ?thesis
    using i by (simp add: frame_def same_config_def inv_align align_grows)
qed

section \<open>Sequencing, appending and alignment\<close>

lemma then_do_returns: "returns out \<Longrightarrow> then_do out f = f (state_of out)"
  by (cases out) simp_all

lemma appends_then_do:
  assumes "appends w out bs" and "appends (state_of out) (f (state_of out)) cs"
  shows "appends w (then_do out f) (bs @ cs)"
  using assms by (cases out) (auto simp: appends_def same_config_def)

lemma appends_frame:
  assumes "inv w" and "appends w out bs"
  shows "ok_step w out"
proof -
  let ?w' = "state_of out"
  have "take (offset w) (buffer ?w') = take (offset w) (data ?w')"
    using assms(2) by (simp add: data_def appends_def min_def)
  also have "\<dots> = take (offset w) (buffer w)"
    using assms by (simp add: appends_def) (simp add: data_def inv_def)
  finally show ?thesis
    using assms by (simp add: ok_step_def frame_def appends_def)
qed

lemma appends_inv: "appends w out bs \<Longrightarrow> inv (state_of out)"
  by (simp add: appends_def)

lemma ok_step_then_do:
  assumes "ok_step w out" and "ok_step (state_of out) (f (state_of out))"
  shows "ok_step w (then_do out f)"
  using assms by (cases out) (auto simp: ok_step_def intro: frame_trans)

lemma ok_step_inv: "ok_step w out \<Longrightarrow> inv (state_of out)"
  by (simp add: ok_step_def frame_def)

lemma ok_step_Returns: "inv w \<Longrightarrow> ok_step w (Returns w)"
  by (simp add: ok_step_def frame_refl)

lemma appends_set_at_offset:
  assumes "inv w" and "offset w + length bs \<le> length (buffer w)" and "length bs = n"
  shows "appends w (advance w (dataview_set (offset w) bs (buffer w)) n) bs"
proof -
  have "take (offset w + n) (write_at (offset w) bs (buffer w)) = take (offset w) (buffer w) @ bs"
    using assms take_write_at_end [of "offset w" bs "buffer w"] by simp
  then show ?thesis
    using assms
    by (simp add: advance_def dataview_set_def appends_def same_config_def inv_def data_def
        length_write_at)
qed

lemma appends_aligned_set:
  assumes "inv w" and "length bs = n"
  shows "appends w
           (advance (align w a n) (dataview_set (offset (align w a n)) bs (buffer (align w a n))) n)
           (replicate (align_padding (offset w) (origin w) a) 0 @ bs)"
proof -
  let ?w1 = "align w a n"
  have 1: "appends ?w1 (advance ?w1 (dataview_set (offset ?w1) bs (buffer ?w1)) n) bs"
    using assms align_room [of w a n] by (intro appends_set_at_offset inv_align) simp_all
  show ?thesis
    using 1 assms align_grows [of w a n]
    by (simp add: appends_def same_config_def data_align)
qed

lemma appends_resized_set:
  assumes "inv w" and "length bs = n"
  shows "appends w
           (advance (resizeIfNeeded w n)
              (dataview_set (offset (resizeIfNeeded w n)) bs (buffer (resizeIfNeeded w n))) n)
           bs"
proof -
  let ?w1 = "resizeIfNeeded w n"
  have f: "frame w ?w1" using assms by (simp add: frame_resizeIfNeeded)
  have 1: "appends ?w1 (advance ?w1 (dataview_set (offset ?w1) bs (buffer ?w1)) n) bs"
    using assms resizeIfNeeded_room [of w n] f
    by (intro appends_set_at_offset) (simp_all add: frame_def)
  have "data ?w1 = data w"
    using f by (simp add: data_def frame_def)
  then show ?thesis
    using 1 f by (simp add: appends_def same_config_def frame_def)
qed

lemma align_padding_one [simp]: "align_padding off orig 1 = 0"
  by (simp add: align_padding_def)

lemma align_padding_less: "0 < a \<Longrightarrow> align_padding off orig a < a"
  by (simp add: align_padding_def Let_def)

lemma align_padding_aligned:
  assumes "orig \<le> off" and "0 < a"
  shows "(off + align_padding off orig a - orig) mod a = 0"
proof (cases "(off - orig) mod a = 0")
  case True
  then show ?thesis using assms by (auto simp: align_padding_def)
next
  case False
  then have "off + align_padding off orig a - orig = (off - orig) + (a - (off - orig) mod a)"
    using assms by (simp add: align_padding_def Let_def)
  also have "\<dots> mod a = ((off - orig) mod a + (a - (off - orig) mod a)) mod a"
    by (simp add: mod_add_left_eq)
  also have "(off - orig) mod a + (a - (off - orig) mod a) = a"
    using mod_less_divisor [OF assms(2), of "off - orig"] by simp
  finally show ?thesis by simp
qed

lemma align_padding_zero:
  "orig \<le> off \<Longrightarrow> (off - orig) mod a = 0 \<Longrightarrow> align_padding off orig a = 0"
  by (simp add: align_padding_def)

section \<open>Scalar writes\<close>

lemma num_bytes_one: "num_bytes 1 le v = le_bytes 1 v"
  by (simp add: num_bytes_def)

lemma length_scalar_bytes [simp]: "length (scalar_bytes le s) = width s"
  by (cases s) simp_all

lemma write_scalar_appends:
  assumes "inv w" and "configured w"
  shows "appends w (write_scalar w s)
           (replicate (align_padding (offset w) (origin w) (table_alignment (isCDR2 w) s)) 0
            @ scalar_bytes (littleEndian w) s)"
proof (cases s)
  case (Int8 v)
  then show ?thesis
    using appends_resized_set [OF assms(1), of "le_bytes 1 v" 1]
    by (simp add: int8_def setInt8_def table_alignment_def num_bytes_def align_padding_def Let_def)
next
  case (Uint8 v)
  then show ?thesis
    using appends_resized_set [OF assms(1), of "le_bytes 1 v" 1]
    by (simp add: uint8_def setUint8_def table_alignment_def num_bytes_def align_padding_def Let_def)
next
  case (Int16 v)
  then show ?thesis
    using appends_aligned_set [OF assms(1), of "num_bytes 2 (littleEndian w) v" 2 2]
    by (simp add: int16_def setInt16_def table_alignment_def Let_def)
next
  case (Uint16 v)
  then show ?thesis
    using appends_aligned_set [OF assms(1), of "num_bytes 2 (littleEndian w) v" 2 2]
    by (simp add: uint16_def setUint16_def table_alignment_def Let_def)
next
  case (Int32 v)
  then show ?thesis
    using appends_aligned_set [OF assms(1), of "num_bytes 4 (littleEndian w) v" 4 4]
    by (simp add: int32_def setInt32_def table_alignment_def Let_def)
next
  case (Uint32 v)
  then show ?thesis
    using appends_aligned_set [OF assms(1), of "num_bytes 4 (littleEndian w) v" 4 4]
    by (simp add: uint32_def setUint32_def table_alignment_def Let_def)
next
  case (Int64 v)
  then show ?thesis
    using appends_aligned_set [OF assms(1), of "num_bytes 8 (littleEndian w) v" 8 "eightByteAlignment w"] assms(2)
    by (cases "isCDR2 w") (simp_all add: int64_def setBigInt64_def table_alignment_def Let_def configured_def)
next
  case (Uint64 v)
  then show ?thesis
    using appends_aligned_set [OF assms(1), of "num_bytes 8 (littleEndian w) v" 8 "eightByteAlignment w"] assms(2)
    by (cases "isCDR2 w") (simp_all add: uint64_def setBigUint64_def table_alignment_def Let_def configured_def)
next
  case (Uint16BE v)
  then show ?thesis
    using appends_aligned_set [OF assms(1), of "num_bytes 2 False v" 2 2]
    by (simp add: uint16BE_def setUint16_def table_alignment_def Let_def)
next
  case (Uint32BE v)
  then show ?thesis
    using appends_aligned_set [OF assms(1), of "num_bytes 4 False v" 4 4]
    by (simp add: uint32BE_def setUint32_def table_alignment_def Let_def)
next
  case (Uint64BE v)
  then show ?thesis
    using appends_aligned_set [OF assms(1), of "num_bytes 8 False v" 8 "eightByteAlignment w"] assms(2)
    by (cases "isCDR2 w") (simp_all add: uint64BE_def setBigUint64_def table_alignment_def Let_def configured_def)
next
  case (Float32 b)
  then show ?thesis
    using appends_aligned_set [OF assms(1), of "num_bytes 4 (littleEndian w) (uint b)" 4 4]
    by (simp add: float32_def setFloat32_def table_alignment_def Let_def)
next
  case (Float64 b)
  then show ?thesis
    using appends_aligned_set [OF assms(1), of "num_bytes 8 (littleEndian w) (uint b)" 8 "eightByteAlignment w"] assms(2)
    by (cases "isCDR2 w") (simp_all add: float64_def setFloat64_def table_alignment_def Let_def configured_def)
qed

lemma table_alignment_pos: "0 < table_alignment x s"
  by (cases s) (simp_all add: table_alignment_def)

lemma table_alignment_dvd_width: "table_alignment x s dvd width s"
  by (cases s) (simp_all add: table_alignment_def)

lemma write_scalar_frame: "inv w \<Longrightarrow> configured w \<Longrightarrow> ok_step w (write_scalar w s)"
  by (rule appends_frame [OF _ write_scalar_appends])

lemma aligned_set_ok:
  assumes "inv w" and "length bs = n"
  shows "ok_step w
           (advance (align w a n) (dataview_set (offset (align w a n)) bs (buffer (align w a n))) n)"
  by (rule appends_frame [OF assms(1) appends_aligned_set [OF assms]])

lemma resized_set_ok:
  assumes "inv w" and "length bs = n"
  shows "ok_step w
           (advance (resizeIfNeeded w n)
              (dataview_set (offset (resizeIfNeeded w n)) bs (buffer (resizeIfNeeded w n))) n)"
  by (rule appends_frame [OF assms(1) appends_resized_set [OF assms]])

lemmas scalar_defs =
  int8_def uint8_def int16_def uint16_def int32_def uint32_def int64_def uint64_def
  uint16BE_def uint32BE_def uint64BE_def float32_def float64_def
  setInt8_def setUint8_def setInt16_def setUint16_def setInt32_def setUint32_def
  setBigInt64_def setBigUint64_def setFloat32_def setFloat64_def

lemma write_scalar_ok:
  assumes "inv w"
  shows "ok_step w (write_scalar w s)"
proof (cases s)
  case (Int8 v)
  then show ?thesis
    using resized_set_ok [OF assms, of "le_bytes 1 v" 1] by (simp add: scalar_defs Let_def)
next
  case (Uint8 v)
  then show ?thesis
    using resized_set_ok [OF assms, of "le_bytes 1 v" 1] by (simp add: scalar_defs Let_def)
next
  case (Int16 v)
  then show ?thesis
    using aligned_set_ok [OF assms, of "num_bytes 2 (littleEndian w) v" 2 2]
    by (simp add: scalar_defs Let_def)
next
  case (Uint16 v)
  then show ?thesis
    using aligned_set_ok [OF assms, of "num_bytes 2 (littleEndian w) v" 2 2]
    by (simp add: scalar_defs Let_def)
next
  case (Int32 v)
  then show ?thesis
    using aligned_set_ok [OF assms, of "num_bytes 4 (littleEndian w) v" 4 4]
    by (simp add: scalar_defs Let_def)
next
  case (Uint32 v)
  then show ?thesis
    using aligned_set_ok [OF assms, of "num_bytes 4 (littleEndian w) v" 4 4]
    by (simp add: scalar_defs Let_def)
next
  case (Int64 v)
  then show ?thesis
    using aligned_set_ok [OF assms, of "num_bytes 8 (littleEndian w) v" 8 "eightByteAlignment w"]
    by (simp add: scalar_defs Let_def)
next
  case (Uint64 v)
  then show ?thesis
    using aligned_set_ok [OF assms, of "num_bytes 8 (littleEndian w) v" 8 "eightByteAlignment w"]
    by (simp add: scalar_defs Let_def)
next
  case (Uint16BE v)
  then show ?thesis
    using aligned_set_ok [OF assms, of "num_bytes 2 False v" 2 2]
    by (simp add: scalar_defs Let_def)
next
  case (Uint32BE v)
  then show ?thesis
    using aligned_set_ok [OF assms, of "num_bytes 4 False v" 4 4]
    by (simp add: scalar_defs Let_def)
next
  case (Uint64BE v)
  then show ?thesis
    using aligned_set_ok [OF assms, of "num_bytes 8 False v" 8 "eightByteAlignment w"]
    by (simp add: scalar_defs Let_def)
next
  case (Float32 b)
  then show ?thesis
    using aligned_set_ok [OF assms, of "num_bytes 4 (littleEndian w) (uint b)" 4 4]
    by (simp add: scalar_defs Let_def)
next
  case (Float64 b)
  then show ?thesis
    using aligned_set_ok [OF assms, of "num_bytes 8 (littleEndian w) (uint b)" 8 "eightByteAlignment w"]
    by (simp add: scalar_defs Let_def)
qed

lemma uint16_ok: "inv w \<Longrightarrow> ok_step w (uint16 w v)"
  using write_scalar_ok [of w "Uint16 v"] by simp

lemma uint32_ok: "inv w \<Longrightarrow> ok_step w (uint32 w v)"
  using write_scalar_ok [of w "Uint32 v"] by simp

lemma for_each_ok:
  assumes step: "\<And>w x. inv w \<Longrightarrow> ok_step w (f w x)"
  shows "inv w \<Longrightarrow> ok_step w (for_each f w xs)"
proof (induction xs arbitrary: w)
  case Nil
  then show ?case by (simp add: ok_step_Returns)
next
  case (Cons x xs)
  have 1: "ok_step w (f w x)" using Cons.prems by (rule step)
  have 2: "ok_step (state_of (f w x)) (for_each f (state_of (f w x)) xs)"
    using ok_step_inv [OF 1] by (rule Cons.IH)
  show ?case using ok_step_then_do [OF 1, of "\<lambda>w1. for_each f w1 xs"] 2 by simp
qed

lemma array_set_dataview_set: "array_set bs pos buf = dataview_set pos bs buf"
  by (simp add: array_set_def dataview_set_def)

lemma bulk_copy_ok: "inv w \<Longrightarrow> ok_step w (bulk_copy w a bytes)"
  using aligned_set_ok [of w bytes "length bytes" a]
  by (simp add: bulk_copy_def Let_def array_set_dataview_set)

lemma write_length_ok: "inv w \<Longrightarrow> ok_step w (write_length w b n)"
  by (simp add: write_length_def sequenceLength_def uint32_ok ok_step_Returns)

lemma byte_array_ok:
  assumes "inv w" and "length bytes = n"
  shows "ok_step w (let w2 = resizeIfNeeded w n
                    in advance w2 (array_set bytes (offset w2) (buffer w2)) n)"
  using resized_set_ok [OF assms] by (simp add: Let_def array_set_dataview_set)

lemma int8Array_ok:
  assumes "inv w"
  shows "ok_step w (int8Array w v b)"
proof -
  let ?w1 = "state_of (write_length w b (arr_length v))"
  have 1: "ok_step w (write_length w b (arr_length v))"
    using assms by (rule write_length_ok)
  have 2: "inv ?w1" using 1 by (rule ok_step_inv)
  show ?thesis
    unfolding int8Array_def
  proof (rule ok_step_then_do [OF 1])
    show "ok_step ?w1
           (let w2 = resizeIfNeeded ?w1 (arr_length v);
                bytes = case v of TypedView xs \<Rightarrow> xs | Plain ns \<Rightarrow> map word_of_int ns
            in advance w2 (array_set bytes (offset w2) (buffer w2)) (arr_length v))"
      using byte_array_ok [OF 2, of "case v of TypedView xs \<Rightarrow> xs | Plain ns \<Rightarrow> map word_of_int ns" "arr_length v"]
      by (cases v) (simp_all add: Let_def)
  qed
qed

section \<open>Loops, arrays and the sentinel\<close>

lemma typed_array_ok:
  assumes "inv w" and step: "\<And>w x. inv w \<Longrightarrow> ok_step w (f w x)"
  shows "ok_step w
           (then_do (write_length w b n)
              (\<lambda>w1. case v of
                  TypedView xs \<Rightarrow>
                    if fast_path w1 (length xs) then bulk_copy w1 k (bytes w1 xs)
                    else for_each f w1 (g xs)
                | Plain ns \<Rightarrow> for_each f w1 (h ns)))"
proof (rule ok_step_then_do [OF write_length_ok [OF assms(1)]])
  let ?w1 = "state_of (write_length w b n)"
  have i: "inv ?w1" using write_length_ok [OF assms(1)] by (rule ok_step_inv)
  show "ok_step ?w1
          (case v of
             TypedView xs \<Rightarrow>
               if fast_path ?w1 (length xs) then bulk_copy ?w1 k (bytes ?w1 xs)
               else for_each f ?w1 (g xs)
           | Plain ns \<Rightarrow> for_each f ?w1 (h ns))"
    using i by (cases v) (simp_all add: bulk_copy_ok for_each_ok [of f, OF step])
qed

lemma scalar_ok:
  assumes "inv w"
  shows "ok_step w (int16 w v)" "ok_step w (int32 w v)" "ok_step w (int64 w v)"
    "ok_step w (uint64 w v)" "ok_step w (float32 w b)" "ok_step w (float64 w c)"
  using write_scalar_ok [OF assms, of "Int16 v"] write_scalar_ok [OF assms, of "Int32 v"]
    write_scalar_ok [OF assms, of "Int64 v"] write_scalar_ok [OF assms, of "Uint64 v"]
    write_scalar_ok [OF assms, of "Float32 b"] write_scalar_ok [OF assms, of "Float64 c"]
  by simp_all

lemma int16Array_ok: "inv w \<Longrightarrow> ok_step w (int16Array w v b)"
  unfolding int16Array_def
  using typed_array_ok [where w=w and f=int16 and b=b and n="arr_length v" and v=v and k=2
      and bytes="\<lambda>w1 xs. view_bytes 2 (hostLittleEndian w1) (map uint xs)" and g="map sint" and h="\<lambda>ns. ns"]
  by (simp add: scalar_ok)

lemma uint16Array_ok: "inv w \<Longrightarrow> ok_step w (uint16Array w v b)"
  unfolding uint16Array_def
  using typed_array_ok [where w=w and f=uint16 and b=b and n="arr_length v" and v=v and k=2
      and bytes="\<lambda>w1 xs. view_bytes 2 (hostLittleEndian w1) (map uint xs)" and g="map uint" and h="\<lambda>ns. ns"]
  by (simp add: uint16_ok)

lemma int32Array_ok: "inv w \<Longrightarrow> ok_step w (int32Array w v b)"
  unfolding int32Array_def
  using typed_array_ok [where w=w and f=int32 and b=b and n="arr_length v" and v=v and k=4
      and bytes="\<lambda>w1 xs. view_bytes 4 (hostLittleEndian w1) (map uint xs)" and g="map sint" and h="\<lambda>ns. ns"]
  by (simp add: scalar_ok)

lemma uint32Array_ok: "inv w \<Longrightarrow> ok_step w (uint32Array w v b)"
  unfolding uint32Array_def
  using typed_array_ok [where w=w and f=uint32 and b=b and n="arr_length v" and v=v and k=4
      and bytes="\<lambda>w1 xs. view_bytes 4 (hostLittleEndian w1) (map uint xs)" and g="map uint" and h="\<lambda>ns. ns"]
  by (simp add: uint32_ok)

lemma int64Array_ok: "inv w \<Longrightarrow> ok_step w (int64Array w v b)"
  unfolding int64Array_def
  using typed_array_ok [where w=w and f=int64 and b=b and n="arr_length v" and v=v and k=8
      and bytes="\<lambda>w1 xs. view_bytes 8 (hostLittleEndian w1) (map uint xs)" and g="map sint" and h="\<lambda>ns. ns"]
  by (simp add: scalar_ok)

lemma uint64Array_ok: "inv w \<Longrightarrow> ok_step w (uint64Array w v b)"
  unfolding uint64Array_def
  using typed_array_ok [where w=w and f=uint64 and b=b and n="arr_length v" and v=v and k=8
      and bytes="\<lambda>w1 xs. view_bytes 8 (hostLittleEndian w1) (map uint xs)" and g="map uint" and h="\<lambda>ns. ns"]
  by (simp add: scalar_ok)

lemma float32Array_ok: "inv w \<Longrightarrow> ok_step w (float32Array w v b)"
  unfolding float32Array_def
  using typed_array_ok [where w=w and f=float32 and b=b and n="arr_length v" and v=v and k=4
      and bytes="\<lambda>w1 xs. view_bytes 4 (hostLittleEndian w1) (map uint xs)" and g="\<lambda>xs. xs" and h="\<lambda>ns. ns"]
  by (simp add: scalar_ok)

lemma float64Array_ok: "inv w \<Longrightarrow> ok_step w (float64Array w v b)"
  unfolding float64Array_def
  using typed_array_ok [where w=w and f=float64 and b=b and n="arr_length v" and v=v and k=8
      and bytes="\<lambda>w1 xs. view_bytes 8 (hostLittleEndian w1) (map uint xs)" and g="\<lambda>xs. xs" and h="\<lambda>ns. ns"]
  by (simp add: scalar_ok)

lemma uint8Array_ok: "inv w \<Longrightarrow> ok_step w (uint8Array w v b)"
  using int8Array_ok [of w v b] by (simp add: int8Array_def uint8Array_def)

lemma length_encode_while_fits: "length (encode_while_fits cs room) \<le> room"
proof (induction cs arbitrary: room)
  case Nil
  then show ?case by simp
next
  case (Cons c cs)
  have "length (utf8_encode c) + length (encode_while_fits cs (room - length (utf8_encode c))) \<le> room"
    if "length (utf8_encode c) \<le> room"
    using that Cons.IH [of "room - length (utf8_encode c)"] by linarith
  then show ?case by (simp add: Let_def)
qed

lemma align_ok: "inv w \<Longrightarrow> ok_step w (Returns (align w a n))"
  by (simp add: ok_step_def frame_align)

lemma sentinelHeader_ok:
  assumes "inv w"
  shows "ok_step w (sentinelHeader w)"
proof (cases "isCDR2 w")
  case True
  then show ?thesis using assms by (simp add: sentinelHeader_def ok_step_Returns)
next
  case False
  let ?w0 = "align w 4 4"
  have 0: "ok_step w (Returns ?w0)" using assms by (rule align_ok)
  have i0: "inv ?w0" using assms by (rule inv_align)
  have 1: "ok_step ?w0 (uint16 ?w0 SENTINEL_PID)" using i0 by (rule uint16_ok)
  have 2: "ok_step (state_of (uint16 ?w0 SENTINEL_PID)) (uint16 (state_of (uint16 ?w0 SENTINEL_PID)) 0)"
    using ok_step_inv [OF 1] by (rule uint16_ok)
  have "ok_step ?w0 (then_do (uint16 ?w0 SENTINEL_PID) (\<lambda>w1. uint16 w1 0))"
    using ok_step_then_do [OF 1, of "\<lambda>w1. uint16 w1 0"] 2 by simp
  then have "ok_step w (then_do (Returns ?w0) (\<lambda>w0. then_do (uint16 w0 SENTINEL_PID) (\<lambda>w1. uint16 w1 0)))"
    using ok_step_then_do [OF 0, of "\<lambda>w0. then_do (uint16 w0 SENTINEL_PID) (\<lambda>w1. uint16 w1 0)"] by simp
  then show ?thesis using False by (simp add: sentinelHeader_def Let_def)
qed

section \<open>Strings and aligned writes\<close>

lemma length_encodeInto: "length (encodeInto v room) \<le> room"
  by (simp add: encodeInto_def length_encode_while_fits)

lemma string_body_ok:
  assumes "inv w1"
  shows "ok_step w1
           (let w2 = resizeIfNeeded w1 (n + 1) in
            case uint8array_window (offset w2) n (buffer w2) of
              Inl e \<Rightarrow> Throws e w2
            | Inr u \<Rightarrow>
                (let w3 = w2\<lparr>buffer := write_at (offset w2) (encodeInto v n) (buffer w2)\<rparr>
                 in advance w3 (setUint8 (offset w3 + n) 0 (buffer w3)) (n + 1)))"
proof -
  let ?w2 = "resizeIfNeeded w1 (n + 1)"
  let ?enc = "encodeInto v n"
  let ?b3 = "write_at (offset w1) ?enc (buffer ?w2)"
  let ?b4 = "write_at (offset w1 + n) [0] ?b3"
  have f2: "frame w1 ?w2" using assms by (rule frame_resizeIfNeeded)
  have room: "offset w1 + n + 1 \<le> length (buffer ?w2)"
    using resizeIfNeeded_room [of w1 "n + 1"] by simp
  have enc: "offset w1 + length ?enc \<le> length (buffer ?w2)"
    using room length_encodeInto [of v n] by linarith
  have l3: "length ?b3 = length (buffer ?w2)"
    using enc by (rule length_write_at)
  have l4: "length ?b4 = length (buffer ?w2)"
    using room l3 by (simp add: length_write_at)
  have t3: "take (offset w1) ?b3 = take (offset w1) (buffer w1)"
    using room f2 by (simp add: take_write_at_below frame_def)
  have t4: "take (offset w1) ?b4 = take (offset w1) (buffer w1)"
    using room l3 t3 by (simp add: take_write_at_below)
  have "frame w1 (?w2\<lparr>buffer := ?b4, offset := offset w1 + n + 1\<rparr>)"
    using f2 room l4 t4 assms by (simp add: frame_def same_config_def inv_def)
  then show ?thesis
    using room l3
    by (simp add: Let_def uint8array_window_def setUint8_def dataview_set_def advance_def
        ok_step_def)
qed

lemma string_w_ok:
  assumes "inv w"
  shows "ok_step w (string_w w v b)"
proof -
  let ?pre = "if b then uint32 w (int (length v) + 1) else Returns w"
  have 1: "ok_step w ?pre" using assms by (simp add: uint32_ok ok_step_Returns)
  show ?thesis
    unfolding string_w_def Let_def
    by (rule ok_step_then_do [OF 1])
       (rule string_body_ok [OF ok_step_inv [OF 1], unfolded Let_def])
qed

lemma dHeader_ok: "inv w \<Longrightarrow> ok_step w (dHeader w v)"
  by (simp add: dHeader_def uint32_ok)

lemma sequenceLength_ok: "inv w \<Longrightarrow> ok_step w (sequenceLength w v)"
  by (simp add: sequenceLength_def uint32_ok)

lemma uint16_appends:
  "inv w \<Longrightarrow> appends w (uint16 w v)
     (replicate (align_padding (offset w) (origin w) 2) 0 @ num_bytes 2 (littleEndian w) v)"
  using appends_aligned_set [of w "num_bytes 2 (littleEndian w) v" 2 2]
  by (simp add: uint16_def setUint16_def Let_def)

lemma uint32_appends:
  "inv w \<Longrightarrow> appends w (uint32 w v)
     (replicate (align_padding (offset w) (origin w) 4) 0 @ num_bytes 4 (littleEndian w) v)"
  using appends_aligned_set [of w "num_bytes 4 (littleEndian w) v" 4 4]
  by (simp add: uint32_def setUint32_def Let_def)

lemma uint16_aligned:
  assumes "aligned 2 w"
  shows "appends w (uint16 w v) (num_bytes 2 (littleEndian w) v)"
  using assms uint16_appends [of w v] by (simp add: aligned_def align_padding_zero inv_def)

lemma uint32_aligned:
  assumes "aligned 4 w"
  shows "appends w (uint32 w v) (num_bytes 4 (littleEndian w) v)"
  using assms uint32_appends [of w v] by (simp add: aligned_def align_padding_zero inv_def)

lemma appends_aligned_after:
  assumes "aligned a w" and "appends w out bs" and "a dvd length bs"
  shows "aligned a (state_of out)"
proof -
  have "offset (state_of out) - origin (state_of out) = (offset w - origin w) + length bs"
    using assms(1,2) by (simp add: aligned_def appends_def inv_def)
  moreover have "a dvd (offset w - origin w) + length bs"
    using assms(1,3) by (simp add: aligned_def mod_eq_0_iff_dvd)
  ultimately show ?thesis
    using assms(2) by (simp add: aligned_def appends_def mod_eq_0_iff_dvd)
qed

lemma aligned_4_2: "aligned 4 w \<Longrightarrow> aligned 2 w"
  unfolding aligned_def by (metis dvd_eq_mod_eq_0 dvd_trans even_numeral numeral_Bit0 dvd_triv_left mult_2)

lemma aligned_align:
  assumes "inv w" and "0 < a"
  shows "aligned a (align w a n)"
proof -
  have "(offset w + align_padding (offset w) (origin w) a - origin w) mod a = 0"
    using assms by (intro align_padding_aligned) (simp_all add: inv_def)
  then show ?thesis
    using inv_align [OF assms(1), of a n] by (simp add: aligned_def)
qed

lemma appends_align:
  "inv w \<Longrightarrow> appends w (Returns (align w a n)) (replicate (align_padding (offset w) (origin w) a) 0)"
  by (simp add: appends_def same_config_def inv_align data_align align_grows)

section \<open>JavaScript bit operations and the bytes of a number\<close>

lemma word8_of_int_cong:
  assumes "take_bit 8 a = take_bit 8 b"
  shows "(word_of_int a :: 8 word) = word_of_int b"
proof -
  have l: "LENGTH(8) = 8" by simp
  show ?thesis
    unfolding word_of_int_eq_iff l by (rule assms)
qed

lemma le_bytes_cong:
  "take_bit (8 * n) a = take_bit (8 * n) b \<Longrightarrow> le_bytes n a = le_bytes n b"
proof (induction n arbitrary: a b)
  case 0
  show ?case by (simp only: le_bytes.simps)
next
  case (Suc n)
  have e: "8 * Suc n = 8 * n + 8" by simp
  have p: "take_bit (8 * n + 8) a = take_bit (8 * n + 8) b"
    using Suc.prems unfolding e .
  have t: "take_bit 8 (take_bit (8 * n + 8) k) = take_bit 8 k" for k :: int
    by (simp only: take_bit_take_bit min_def) simp
  have "take_bit 8 (take_bit (8 * n + 8) a) = take_bit 8 (take_bit (8 * n + 8) b)"
    by (simp only: p)
  then have 1: "take_bit 8 a = take_bit 8 b"
    by (simp only: t)
  have "drop_bit 8 (take_bit (8 * n + 8) a) = drop_bit 8 (take_bit (8 * n + 8) b)"
    by (simp only: p)
  then have "take_bit (8 * n) (drop_bit 8 a) = take_bit (8 * n) (drop_bit 8 b)"
    by (simp only: take_bit_drop_bit)
  then have 2: "take_bit (8 * n) (a div 256) = take_bit (8 * n) (b div 256)"
    by (simp only: drop_bit_eq_div) simp
  show ?case
    using word8_of_int_cong [OF 1] Suc.IH [OF 2] by (simp only: le_bytes.simps)
qed

lemma num_bytes_cong:
  "take_bit (8 * n) a = take_bit (8 * n) b \<Longrightarrow> num_bytes n le a = num_bytes n le b"
  using le_bytes_cong [of n a b] by (simp add: num_bytes_def)

lemma take_bit_sint_word_of_int:
  "n \<le> 32 \<Longrightarrow> take_bit n (sint (word_of_int k :: 32 word)) = take_bit n k"
  by (simp add: sint_sbintrunc' take_bit_signed_take_bit)

lemma take_bit_js_or: "n \<le> 32 \<Longrightarrow> take_bit n (js_or a b) = take_bit n (a OR b)"
proof -
  have "(word_of_int a :: 32 word) OR word_of_int b = word_of_int (a OR b)"
    by (simp add: word_of_int_eq_iff uint_or uint_word_of_int_eq take_bit_or word_eq_iff_unsigned [where ?'a = int])
  then show "n \<le> 32 \<Longrightarrow> ?thesis"
    by (simp only: js_or_def take_bit_sint_word_of_int)
qed

lemma take_bit_js_and: "n \<le> 32 \<Longrightarrow> take_bit n (js_and a b) = take_bit n (a AND b)"
proof -
  have "(word_of_int a :: 32 word) AND word_of_int b = word_of_int (a AND b)"
    by (simp add: word_eq_iff_unsigned [where ?'a = int] uint_and uint_word_of_int_eq take_bit_and)
  then show "n \<le> 32 \<Longrightarrow> ?thesis"
    by (simp only: js_and_def take_bit_sint_word_of_int)
qed

lemma take_bit_js_shl:
  "n \<le> 32 \<Longrightarrow> k < 32 \<Longrightarrow> take_bit n (js_shl a k) = take_bit n (push_bit k a)"
proof -
  have "push_bit k (word_of_int a :: 32 word) = word_of_int (push_bit k a)"
    by (simp add: push_bit_of_int)
  then show "n \<le> 32 \<Longrightarrow> k < 32 \<Longrightarrow> ?thesis"
    by (simp add: js_shl_def take_bit_sint_word_of_int)
qed

lemma js_sar_div:
  assumes "0 \<le> a" and "a < 2 ^ 31" and "k < 32"
  shows "js_sar a k = a div 2 ^ k"
proof -
  have "signed_take_bit 31 a = a"
    using assms by (simp add: signed_take_bit_int_eq_self)
  then show ?thesis
    using assms by (simp add: js_sar_def sint_signed_drop_bit_eq sint_sbintrunc' drop_bit_eq_div)
qed

section \<open>Header words\<close>

lemma appends_littleEndian: "appends w out bs \<Longrightarrow> littleEndian (state_of out) = littleEndian w"
  by (simp add: appends_def same_config_def)

lemma appends_isCDR2: "appends w out bs \<Longrightarrow> isCDR2 (state_of out) = isCDR2 w"
  by (simp add: appends_def same_config_def)

lemma appends_inv_after: "appends w out bs \<Longrightarrow> inv (state_of out)"
  by (simp add: appends_def)

lemma uint32_after:
  assumes "inv w"
  shows "aligned 4 (state_of (uint32 w v))"
proof -
  let ?w1 = "align w 4 4"
  have a: "aligned 4 ?w1" using assms by (intro aligned_align) simp_all
  have "appends ?w1
          (advance ?w1 (dataview_set (offset ?w1) (num_bytes 4 (littleEndian w) v) (buffer ?w1)) 4)
          (num_bytes 4 (littleEndian w) v)"
    using inv_align [OF assms, of 4 4] align_room [of w 4 4]
    by (intro appends_set_at_offset) simp_all
  then have b: "appends ?w1 (uint32 w v) (num_bytes 4 (littleEndian w) v)"
    by (simp add: uint32_def setUint32_def Let_def)
  show ?thesis using a b by (rule appends_aligned_after) simp
qed

lemma two_uint32:
  assumes "aligned 4 w"
  shows "appends w (then_do (uint32 w a) (\<lambda>w1. uint32 w1 b))
           (num_bytes 4 (littleEndian w) a @ num_bytes 4 (littleEndian w) b)"
proof -
  let ?o1 = "uint32 w a"
  have 1: "appends w ?o1 (num_bytes 4 (littleEndian w) a)"
    using assms by (rule uint32_aligned)
  have i: "inv w" using assms by (simp add: aligned_def)
  have 2: "appends (state_of ?o1) (uint32 (state_of ?o1) b) (num_bytes 4 (littleEndian w) b)"
    using uint32_aligned [OF uint32_after [OF i, of a], of b] appends_littleEndian [OF 1] by simp
  show ?thesis using 1 2 by (rule appends_then_do)
qed

lemma two_uint16:
  assumes "aligned 2 w"
  shows "appends w (then_do (uint16 w a) (\<lambda>w1. uint16 w1 b))
           (num_bytes 2 (littleEndian w) a @ num_bytes 2 (littleEndian w) b)"
proof -
  let ?o1 = "uint16 w a"
  have 1: "appends w ?o1 (num_bytes 2 (littleEndian w) a)"
    using assms by (rule uint16_aligned)
  have "aligned 2 (state_of ?o1)"
    using assms 1 by (rule appends_aligned_after) simp
  then have 2: "appends (state_of ?o1) (uint16 (state_of ?o1) b) (num_bytes 2 (littleEndian w) b)"
    using uint16_aligned [of "state_of ?o1" b] appends_littleEndian [OF 1] by simp
  show ?thesis using 1 2 by (rule appends_then_do)
qed

lemma extended_pid_words:
  assumes "aligned 4 w"
  shows "appends w
           (then_do (uint16 w a)
              (\<lambda>w1. then_do (uint16 w1 b)
                (\<lambda>w2. then_do (uint32 w2 c)
                  (\<lambda>w3. uint32 w3 d))))
           (num_bytes 2 (littleEndian w) a @ num_bytes 2 (littleEndian w) b
            @ num_bytes 4 (littleEndian w) c @ num_bytes 4 (littleEndian w) d)"
proof -
  let ?le = "littleEndian w"
  let ?o1 = "uint16 w a"
  let ?w1 = "state_of ?o1"
  let ?o2 = "uint16 ?w1 b"
  let ?w2 = "state_of ?o2"
  have a2: "aligned 2 w" using assms by (rule aligned_4_2)
  have 1: "appends w ?o1 (num_bytes 2 ?le a)"
    using a2 by (rule uint16_aligned)
  have a21: "aligned 2 ?w1"
    using a2 1 by (rule appends_aligned_after) simp
  have 2: "appends ?w1 ?o2 (num_bytes 2 ?le b)"
    using uint16_aligned [OF a21, of b] appends_littleEndian [OF 1] by simp
  have 12: "appends w (then_do ?o1 (\<lambda>w1. uint16 w1 b)) (num_bytes 2 ?le a @ num_bytes 2 ?le b)"
    using 1 2 by (rule appends_then_do)
  have "aligned 4 (state_of (then_do ?o1 (\<lambda>w1. uint16 w1 b)))"
    using assms 12 by (rule appends_aligned_after) simp
  moreover have "then_do ?o1 (\<lambda>w1. uint16 w1 b) = ?o2"
    using 1 by (simp add: then_do_returns appends_def)
  ultimately have a42: "aligned 4 ?w2" by simp
  have 34: "appends ?w2 (then_do (uint32 ?w2 c) (\<lambda>w3. uint32 w3 d))
              (num_bytes 4 ?le c @ num_bytes 4 ?le d)"
    using two_uint32 [OF a42, of c d] appends_littleEndian [OF 2] appends_littleEndian [OF 1]
    by simp
  have 234: "appends ?w1 (then_do ?o2 (\<lambda>w2. then_do (uint32 w2 c) (\<lambda>w3. uint32 w3 d)))
              (num_bytes 2 ?le b @ num_bytes 4 ?le c @ num_bytes 4 ?le d)"
    using 2 34 by (rule appends_then_do)
  show ?thesis
    using appends_then_do [OF 1, where f = "\<lambda>w1. then_do (uint16 w1 b)
                (\<lambda>w2. then_do (uint32 w2 c) (\<lambda>w3. uint32 w3 d))"] 234
    by simp
qed

lemma uint16_cong: "take_bit 16 a = take_bit 16 b \<Longrightarrow> uint16 w a = uint16 w b"
  using num_bytes_cong [of 2 a b] by (simp add: uint16_def setUint16_def)

lemma uint32_cong: "take_bit 32 a = take_bit 32 b \<Longrightarrow> uint32 w a = uint32 w b"
  using num_bytes_cong [of 4 a b] by (simp add: uint32_def setUint32_def)

lemma js_shl_1_14: "js_shl 1 14 = 0x4000"
  by (simp add: js_shl_def)

lemma take_bit_js_shl_1_31: "take_bit 32 (js_shl 1 31) = take_bit 32 0x80000000"
  by (simp add: take_bit_js_shl)

lemma v1_id_header:
  "take_bit 16 (js_or (if mu then js_shl 1 14 else 0) x)
   = take_bit 16 ((if mu then 0x4000 else 0) OR x)"
  by (simp add: take_bit_js_or js_shl_1_14)

lemma v1_size_header: "take_bit 16 (js_and sz 0xffff) = take_bit 16 sz"
proof -
  have "take_bit 16 (js_and sz 0xffff) = take_bit 16 (sz AND mask 16)"
    by (simp add: take_bit_js_and mask_eq_exp_minus_1)
  also have "\<dots> = take_bit 16 (take_bit 16 sz)"
    by (simp only: take_bit_eq_mask)
  finally show ?thesis by simp
qed

lemma v2_header:
  shows "take_bit 32 (js_or (js_or (if mu then js_shl 1 31 else 0) (js_shl lc 28)) x)
   = take_bit 32 (xcdr2_header_word mu lc x)"
proof -
  have "take_bit 32 (js_or (js_or (if mu then js_shl 1 31 else 0) (js_shl lc 28)) x)
        = take_bit 32 (if mu then js_shl 1 31 else 0) OR take_bit 32 (js_shl lc 28) OR take_bit 32 x"
    by (simp only: take_bit_js_or take_bit_or order_refl or.assoc)
  also have "take_bit 32 (if mu then js_shl 1 31 else 0) = take_bit 32 (if mu then 0x80000000 else 0)"
    by (cases mu) (simp_all only: if_True if_False take_bit_js_shl_1_31)
  also have "take_bit 32 (js_shl lc 28) = take_bit 32 (push_bit 28 lc)"
    by (simp add: take_bit_js_shl)
  finally show ?thesis
    by (simp only: xcdr2_header_word_def take_bit_or)
qed

section \<open>The XCDR1 member header\<close>

lemma appends_returns_eq: "appends w out bs \<Longrightarrow> out = Returns (state_of out)"
  by (cases out) (simp_all add: appends_def)

lemma memberHeaderV1_words:
  assumes "aligned 4 w0"
  shows "appends w0
     (if \<not> (mid > 0x3f00 \<or> sz > 0xffff) then
        then_do (uint16 w0 (js_or (if mu then js_shl 1 14 else 0) mid))
          (\<lambda>w1. uint16 w1 (js_and sz 0xffff))
      else
        then_do (uint16 w0 (js_or (if mu then js_shl 1 14 else 0) EXTENDED_PID))
          (\<lambda>w1. then_do (uint16 w1 8)
            (\<lambda>w2. then_do (uint32 w2 mid)
              (\<lambda>w3. uint32 w3 sz))))
     (xcdr1_header_bytes (littleEndian w0) mu mid sz)"
proof (cases "mid > 0x3f00 \<or> sz > 0xffff")
  case False
  have "then_do (uint16 w0 (js_or (if mu then js_shl 1 14 else 0) mid))
          (\<lambda>w1. uint16 w1 (js_and sz 0xffff))
        = then_do (uint16 w0 ((if mu then 0x4000 else 0) OR mid)) (\<lambda>w1. uint16 w1 sz)"
    using uint16_cong [OF v1_id_header, of w0 mu mid] uint16_cong [OF v1_size_header]
    by simp
  moreover have "mid \<le> 0x3F00 \<and> sz \<le> 0xFFFF"
    using False by auto
  ultimately show ?thesis
    using False two_uint16 [OF aligned_4_2 [OF assms], of "(if mu then 0x4000 else 0) OR mid" sz]
    by (simp add: xcdr1_header_bytes_def)
next
  case True
  have "uint16 w0 (js_or (if mu then js_shl 1 14 else 0) EXTENDED_PID)
        = uint16 w0 ((if mu then 0x4000 else 0) OR EXTENDED_PID)"
    by (rule uint16_cong [OF v1_id_header])
  moreover have "\<not> (mid \<le> 0x3F00 \<and> sz \<le> 0xFFFF)"
    using True by auto
  ultimately show ?thesis
    using True extended_pid_words [OF assms, of "(if mu then 0x4000 else 0) OR EXTENDED_PID" 8 mid sz]
    by (auto simp: xcdr1_header_bytes_def)
qed

lemma memberHeaderV1_result:
  assumes "inv w"
  shows "\<exists>w'. memberHeaderV1 w mu mid sz = Returns (resetOrigin w')
           \<and> appends w (Returns w')
                (replicate (align_padding (offset w) (origin w) 4) 0
                 @ xcdr1_header_bytes (littleEndian w) mu mid sz)"
proof -
  let ?w0 = "align w 4 4"
  let ?body = "if \<not> (mid > 0x3f00 \<or> sz > 0xffff) then
        then_do (uint16 ?w0 (js_or (if mu then js_shl 1 14 else 0) mid))
          (\<lambda>w1. uint16 w1 (js_and sz 0xffff))
      else
        then_do (uint16 ?w0 (js_or (if mu then js_shl 1 14 else 0) EXTENDED_PID))
          (\<lambda>w1. then_do (uint16 w1 8)
            (\<lambda>w2. then_do (uint32 w2 mid)
              (\<lambda>w3. uint32 w3 sz)))"
  have a0: "aligned 4 ?w0" using assms by (intro aligned_align) simp_all
  have p: "appends w (Returns ?w0) (replicate (align_padding (offset w) (origin w) 4) 0)"
    using assms by (rule appends_align)
  have b: "appends ?w0 ?body (xcdr1_header_bytes (littleEndian w) mu mid sz)"
    using memberHeaderV1_words [OF a0, of mid sz mu] by simp
  have "appends w (then_do (Returns ?w0) (\<lambda>w0. ?body))
          (replicate (align_padding (offset w) (origin w) 4) 0
           @ xcdr1_header_bytes (littleEndian w) mu mid sz)"
    using p by (rule appends_then_do) (use b in simp)
  then have t: "appends w ?body
          (replicate (align_padding (offset w) (origin w) 4) 0
           @ xcdr1_header_bytes (littleEndian w) mu mid sz)"
    by simp
  have r: "?body = Returns (state_of ?body)"
    using t by (rule appends_returns_eq)
  have "memberHeaderV1 w mu mid sz = then_do ?body (\<lambda>w4. Returns (resetOrigin w4))"
    by (simp add: memberHeaderV1_def Let_def)
  also have "\<dots> = Returns (resetOrigin (state_of ?body))"
    by (subst r) simp
  finally have e: "memberHeaderV1 w mu mid sz = Returns (resetOrigin (state_of ?body))" .
  have "appends w (Returns (state_of ?body))
          (replicate (align_padding (offset w) (origin w) 4) 0
           @ xcdr1_header_bytes (littleEndian w) mu mid sz)"
    using t r by simp
  with e show ?thesis by blast
qed

lemma frame_resetOrigin: "frame w w' \<Longrightarrow> frame w (resetOrigin w')"
  by (simp add: frame_def resetOrigin_def same_config_def inv_def)

lemma memberHeaderV1_ok:
  assumes "inv w"
  shows "ok_step w (memberHeaderV1 w mu mid sz)"
proof -
  obtain w' bs where e: "memberHeaderV1 w mu mid sz = Returns (resetOrigin w')"
    and a: "appends w (Returns w') bs"
    using memberHeaderV1_result [OF assms] by blast
  have "frame w w'" using appends_frame [OF assms a] by (simp add: ok_step_def)
  then show ?thesis using e by (simp add: ok_step_def frame_resetOrigin)
qed

section \<open>The XCDR2 member header\<close>

lemma final_length_code_eq:
  "(case lc of Some c \<Rightarrow> c | None \<Rightarrow> getLengthCodeForObjectSize sz) = final_length_code sz lc"
  by (cases lc) (simp_all add: final_length_code_def getLengthCodeForObjectSize_def)

text \<open>\<^verbatim>\<open>#memberHeaderV2\<close> for an id in range, with the header word as the
  specification writes it.\<close>

lemma memberHeaderV2_unfold:
  assumes "\<not> mid > 0x0fffffff"
  shows "memberHeaderV2 w mu mid sz lc =
     then_do (uint32 w (xcdr2_header_word mu (final_length_code sz lc) mid))
       (\<lambda>w1.
          if final_length_code sz lc = 0 \<or> final_length_code sz lc = 1
             \<or> final_length_code sz lc = 2 \<or> final_length_code sz lc = 3 then
            (if sz \<noteq> lengthCodeToObjectSizes (final_length_code sz lc)
             then Throws (SizeNotFixed (final_length_code sz lc)
                            (lengthCodeToObjectSizes (final_length_code sz lc))) w1
             else Returns w1)
          else if final_length_code sz lc = 4 \<or> final_length_code sz lc = 5 then
            uint32 w1 sz
          else if final_length_code sz lc = 6 then
            (if sz mod 4 \<noteq> 0 then Throws SizeNotMultipleOf4 w1
             else uint32 w1 (js_sar sz 2))
          else if final_length_code sz lc = 7 then
            (if sz mod 8 \<noteq> 0 then Throws SizeNotMultipleOf8 w1
             else uint32 w1 (js_sar sz 3))
          else Throws (UnexpectedLengthCode (final_length_code sz lc)) w1)"
  unfolding memberHeaderV2_def Let_def final_length_code_eq
  using assms uint32_cong [OF v2_header, of w mu "final_length_code sz lc" mid]
  by simp

lemma header_word_appends:
  assumes "inv w"
  shows "appends w (uint32 w h)
           (replicate (align_padding (offset w) (origin w) 4) 0 @ num_bytes 4 (littleEndian w) h)"
  using assms by (rule uint32_appends)

lemma appends_Returns_state: "appends w out bs \<Longrightarrow> appends w (Returns (state_of out)) bs"
  by (simp add: appends_def)

lemma appends_second_word:
  assumes "inv w"
  shows "appends w (then_do (uint32 w h) (\<lambda>w1. uint32 w1 n))
           (replicate (align_padding (offset w) (origin w) 4) 0
            @ num_bytes 4 (littleEndian w) h @ num_bytes 4 (littleEndian w) n)"
proof -
  have 1: "appends w (uint32 w h)
             (replicate (align_padding (offset w) (origin w) 4) 0 @ num_bytes 4 (littleEndian w) h)"
    using assms by (rule uint32_appends)
  have 2: "appends (state_of (uint32 w h)) (uint32 (state_of (uint32 w h)) n)
             (num_bytes 4 (littleEndian w) n)"
    using uint32_aligned [OF uint32_after [OF assms, of h], of n] appends_littleEndian [OF 1]
    by simp
  show ?thesis
    using appends_then_do [OF 1, of "\<lambda>w1. uint32 w1 n", OF 2] by simp
qed

lemma then_do_Throws_state:
  "appends w out bs \<Longrightarrow> then_do out (\<lambda>w1. Throws e w1) = Throws e (state_of out)"
  by (cases out) (simp_all add: appends_def)

lemma then_do_Returns_state:
  "then_do out (\<lambda>w1. Returns w1) = out"
  by (cases out) simp_all

section \<open>Calls, call sequences and construction\<close>

lemma ok_step_frame: "ok_step w out \<Longrightarrow> frame w (state_of out)"
  by (simp add: ok_step_def)

lemma frame_then_do:
  assumes "ok_step w out" and "frame (state_of out) (state_of (f (state_of out)))"
  shows "frame w (state_of (then_do out f))"
proof (cases out)
  case (Returns w1)
  then have "frame w w1" and "frame w1 (state_of (f w1))"
    using assms by (simp_all add: ok_step_def)
  then have "frame w (state_of (f w1))" by (rule frame_trans)
  then show ?thesis using Returns by simp
next
  case (Throws e w1)
  then show ?thesis using assms(1) by (simp add: ok_step_def)
qed

lemma frame_if:
  "frame a (state_of x) \<Longrightarrow> frame a (state_of y) \<Longrightarrow> frame a (state_of (if c then x else y))"
  by simp

lemma memberHeaderV2_frame:
  assumes "inv w"
  shows "frame w (state_of (memberHeaderV2 w mu mid sz lc))"
proof (cases "mid > 0x0fffffff")
  case True
  then show ?thesis using assms by (simp add: memberHeaderV2_def frame_refl)
next
  case False
  let ?o1 = "uint32 w (xcdr2_header_word mu (final_length_code sz lc) mid)"
  have 1: "ok_step w ?o1" using assms by (rule uint32_ok)
  have i1: "inv (state_of ?o1)" using 1 by (rule ok_step_inv)
  have r: "frame (state_of ?o1) (state_of ?o1)" using i1 by (rule frame_refl)
  have u: "frame (state_of ?o1) (state_of (uint32 (state_of ?o1) x))" for x
    using uint32_ok [OF i1, of x] by (rule ok_step_frame)
  show ?thesis
    unfolding memberHeaderV2_unfold [OF False]
  proof (rule frame_then_do [OF 1])
    show "frame (state_of ?o1)
     (state_of
       (if final_length_code sz lc = 0 \<or> final_length_code sz lc = 1
           \<or> final_length_code sz lc = 2 \<or> final_length_code sz lc = 3 then
          (if sz \<noteq> lengthCodeToObjectSizes (final_length_code sz lc)
           then Throws (SizeNotFixed (final_length_code sz lc)
                          (lengthCodeToObjectSizes (final_length_code sz lc))) (state_of ?o1)
           else Returns (state_of ?o1))
        else if final_length_code sz lc = 4 \<or> final_length_code sz lc = 5 then
          uint32 (state_of ?o1) sz
        else if final_length_code sz lc = 6 then
          (if sz mod 4 \<noteq> 0 then Throws SizeNotMultipleOf4 (state_of ?o1)
           else uint32 (state_of ?o1) (js_sar sz 2))
        else if final_length_code sz lc = 7 then
          (if sz mod 8 \<noteq> 0 then Throws SizeNotMultipleOf8 (state_of ?o1)
           else uint32 (state_of ?o1) (js_sar sz 3))
        else Throws (UnexpectedLengthCode (final_length_code sz lc)) (state_of ?o1)))"
      by (intro frame_if) (simp_all only: state_of.simps r u)
  qed
qed

lemma emHeader_frame:
  assumes "inv w"
  shows "frame w (state_of (emHeader w mu mid sz lc))"
  using memberHeaderV2_frame [OF assms, of mu mid sz lc]
    ok_step_frame [OF memberHeaderV1_ok [OF assms, of mu mid sz]]
  by (simp add: emHeader_def)

lemma exec_ok:
  assumes "inv w" and "\<And>mu mid sz lc. c = EmHeader mu mid sz lc \<Longrightarrow> \<not> isCDR2 w"
  shows "ok_step w (exec w c)"
proof (cases c)
  case (Scalar s)
  then show ?thesis using assms(1) by (simp add: write_scalar_ok)
next
  case (String v b)
  then show ?thesis using assms(1) by (simp add: string_w_ok)
next
  case (DHeader n)
  then show ?thesis using assms(1) by (simp add: dHeader_ok)
next
  case (EmHeader mu mid sz lc)
  then show ?thesis using assms by (simp add: emHeader_def memberHeaderV1_ok)
next
  case SentinelHeader
  then show ?thesis using assms(1) by (simp add: sentinelHeader_ok)
next
  case (SequenceLength n)
  then show ?thesis using assms(1) by (simp add: sequenceLength_ok)
next
  case (Int8Array v b)
  then show ?thesis using assms(1) by (simp add: int8Array_ok)
next
  case (Uint8Array v b)
  then show ?thesis using assms(1) by (simp add: uint8Array_ok)
next
  case (Int16Array v b)
  then show ?thesis using assms(1) by (simp add: int16Array_ok)
next
  case (Uint16Array v b)
  then show ?thesis using assms(1) by (simp add: uint16Array_ok)
next
  case (Int32Array v b)
  then show ?thesis using assms(1) by (simp add: int32Array_ok)
next
  case (Uint32Array v b)
  then show ?thesis using assms(1) by (simp add: uint32Array_ok)
next
  case (Int64Array v b)
  then show ?thesis using assms(1) by (simp add: int64Array_ok)
next
  case (Uint64Array v b)
  then show ?thesis using assms(1) by (simp add: uint64Array_ok)
next
  case (Float32Array v b)
  then show ?thesis using assms(1) by (simp add: float32Array_ok)
next
  case (Float64Array v b)
  then show ?thesis using assms(1) by (simp add: float64Array_ok)
next
  case (Align a n)
  then show ?thesis using assms(1) by (simp add: align_ok)
qed

lemma exec_frame:
  assumes "inv w"
  shows "frame w (state_of (exec w c))"
proof (cases "\<exists>mu mid sz lc. c = EmHeader mu mid sz lc")
  case True
  then show ?thesis using assms by (auto simp: emHeader_frame)
next
  case False
  then show ?thesis using exec_ok [OF assms, of c] by (auto simp: ok_step_def)
qed

lemma run_frame: "inv w \<Longrightarrow> frame w (state_of (run w cs))"
proof (induction cs arbitrary: w)
  case Nil
  then show ?case by (simp add: frame_refl)
next
  case (Cons c cs)
  have f: "frame w (state_of (exec w c))" using Cons.prems by (rule exec_frame)
  show ?case
  proof (cases "exec w c")
    case (Returns w1)
    then have "frame w1 (state_of (run w1 cs))" using f Cons.IH [of w1] by (simp add: frame_def)
    then show ?thesis using f Returns by (auto intro: frame_trans)
  next
    case (Throws e w1)
    then show ?thesis using f by simp
  qed
qed

lemma same_config_configured: "same_config w w' \<Longrightarrow> configured w \<Longrightarrow> configured w'"
  by (simp add: same_config_def configured_def)

lemma frame_configured: "frame w w' \<Longrightarrow> configured w \<Longrightarrow> configured w'"
  by (simp add: frame_def same_config_def configured_def)

lemma four_bytes: "4 \<le> length xs \<Longrightarrow> \<exists>a b c d r. xs = a # b # c # d # r"
  by (auto simp: numeral_eq_Suc Suc_le_length_iff)

lemma resizeIfNeeded_at_None [simp]: "resizeIfNeeded_at None n buf = buf"
  by (simp add: resizeIfNeeded_at_def)

lemma le_bytes_2: "le_bytes 2 v = [word_of_int v, word_of_int (v div 256)]"
  by (simp add: numeral_2_eq_2)

lemmas constructor_defs =
  constructor_def Let_def setUint8_def setUint16_def dataview_set_def write_at_def
  num_bytes_def le_bytes_2

lemma constructor_fails:
  assumes "length (initial_buffer opts) < 4"
  shows "constructor hb opts = Inl RangeError"
proof -
  consider "length (initial_buffer opts) = 0" | "length (initial_buffer opts) = 1"
    | "length (initial_buffer opts) = 2" | "length (initial_buffer opts) = 3"
    using assms by linarith
  then show ?thesis
    by cases (simp_all add: constructor_defs)
qed

lemma constructor_result:
  assumes "constructor hb opts = Inr w"
  shows "inv w \<and> configured w \<and> offset w = 4 \<and> origin w = 4
         \<and> length (buffer w) = length (initial_buffer opts) \<and> 4 \<le> length (buffer w)
         \<and> data w = [0, word_of_int (kind_byte (case opt_kind opts of Some k \<Rightarrow> k | None \<Rightarrow> CDR_LE)), 0, 0]
         \<and> isCDR2 w = fst (getEncapsulationKindInfo (case opt_kind opts of Some k \<Rightarrow> k | None \<Rightarrow> CDR_LE))
         \<and> littleEndian w = snd (getEncapsulationKindInfo (case opt_kind opts of Some k \<Rightarrow> k | None \<Rightarrow> CDR_LE))
         \<and> hostLittleEndian w = (\<not> hb)"
proof -
  have l: "4 \<le> length (initial_buffer opts)"
    using assms constructor_fails [of opts hb] by (cases "length (initial_buffer opts) < 4") simp_all
  then obtain a b c d r where e: "initial_buffer opts = a # b # c # d # r"
    using four_bytes by blast
  have "w = \<lparr>littleEndian = snd (getEncapsulationKindInfo (case opt_kind opts of Some k \<Rightarrow> k | None \<Rightarrow> CDR_LE)),
            hostLittleEndian = \<not> hb,
            isCDR2 = fst (getEncapsulationKindInfo (case opt_kind opts of Some k \<Rightarrow> k | None \<Rightarrow> CDR_LE)),
            eightByteAlignment = (if fst (getEncapsulationKindInfo (case opt_kind opts of Some k \<Rightarrow> k | None \<Rightarrow> CDR_LE)) then 4 else 8),
            buffer = 0 # word_of_int (kind_byte (case opt_kind opts of Some k \<Rightarrow> k | None \<Rightarrow> CDR_LE)) # 0 # 0 # r,
            offset = 4, origin = 4\<rparr>"
    using assms by (simp add: constructor_defs e)
  then show ?thesis
    by (simp add: inv_def configured_def data_def e)
qed

lemma constructor_succeeds:
  assumes "4 \<le> length (initial_buffer opts)"
  shows "\<exists>w. constructor hb opts = Inr w"
proof -
  obtain a b c d r where e: "initial_buffer opts = a # b # c # d # r"
    using assms four_bytes by blast
  show ?thesis by (simp add: constructor_defs e)
qed

section \<open>The invariant of reachable writers\<close>

lemma constructor_fresh: "constructor False (kind_options k) = Inr (fresh k)"
  by (cases k; code_simp)

lemma returns_eq: "returns out \<Longrightarrow> out = Returns (state_of out)"
  by (cases out) simp_all

lemma reachable_inv:
  assumes "constructor hb opts = Inr w0" and "run w0 cs = Returns w"
  shows "inv w \<and> configured w"
proof -
  have 0: "inv w0" "configured w0" using constructor_result [OF assms(1)] by simp_all
  have "frame w0 (state_of (run w0 cs))" using 0(1) by (rule run_frame)
  then have "frame w0 w" using assms(2) by simp
  then show ?thesis using 0(2) by (simp add: frame_inv frame_configured)
qed

text \<open>
  C9. A writer that the constructor returns has origin = offset = 4 and a capacity of
  at least 4 bytes. After any sequence of calls that all return, origin \<open>\<le>\<close> offset
  \<open>\<le>\<close> capacity holds, and it holds again after one more call of any kind that
  returns (the scalars, \<^verbatim>\<open>align\<close>, the origin reset of the XCDR1 member header, and
  every call that grows the buffer).
\<close>

theorem invariant_holds_after_each_call:
  assumes "constructor hb opts = Inr w0"
  shows "origin w0 = 4 \<and> offset w0 = 4 \<and> 4 \<le> length (buffer w0)
         \<and> (\<forall>cs w. run w0 cs = Returns w \<longrightarrow>
                origin w \<le> offset w \<and> offset w \<le> length (buffer w)
                \<and> (\<forall>c w'. exec w c = Returns w' \<longrightarrow>
                       origin w' \<le> offset w' \<and> offset w' \<le> length (buffer w')))"
proof -
  have "inv w'" if r: "run w0 cs = Returns w" and e: "exec w c = Returns w'" for cs w c w'
  proof -
    have "inv w" using reachable_inv [OF assms r] by simp
    then have "frame w (state_of (exec w c))" by (rule exec_frame)
    then show ?thesis using e by (simp add: frame_inv)
  qed
  moreover have "inv w" if "run w0 cs = Returns w" for cs w
    using reachable_inv [OF assms that] by simp
  ultimately show ?thesis
    using constructor_result [OF assms] by (simp add: inv_def)
qed

theorem invariant_holds_after_each_call_witness:
  "constructor False (kind_options PL_CDR_LE) = Inr (fresh PL_CDR_LE)
   \<and> origin (fresh PL_CDR_LE) = 4 \<and> offset (fresh PL_CDR_LE) = 4
   \<and> returns (run (fresh PL_CDR_LE) sample_calls)
   \<and> origin (state_of (run (fresh PL_CDR_LE) sample_calls)) = 12
   \<and> offset (state_of (run (fresh PL_CDR_LE) sample_calls)) = 20
   \<and> length (buffer (state_of (run (fresh PL_CDR_LE) sample_calls))) = 32
   \<and> origin (state_of (run (fresh PL_CDR_LE) sample_calls))
       \<le> offset (state_of (run (fresh PL_CDR_LE) sample_calls))
   \<and> offset (state_of (run (fresh PL_CDR_LE) sample_calls))
       \<le> length (buffer (state_of (run (fresh PL_CDR_LE) sample_calls)))"
proof -
  let ?w = "state_of (run (fresh PL_CDR_LE) sample_calls)"
  have c: "constructor False (kind_options PL_CDR_LE) = Inr (fresh PL_CDR_LE)"
    by (rule constructor_fresh)
  have v1: "returns (run (fresh PL_CDR_LE) sample_calls)" by code_simp
  have v2: "origin ?w = 12" by code_simp
  have v3: "offset ?w = 20" by code_simp
  have v4: "length (buffer ?w) = 32" by code_simp
  have r: "run (fresh PL_CDR_LE) sample_calls = Returns ?w"
    using v1 by (rule returns_eq)
  have "origin ?w \<le> offset ?w \<and> offset ?w \<le> length (buffer ?w)"
    using invariant_holds_after_each_call [OF c] r by blast
  then show ?thesis
    using invariant_holds_after_each_call [OF c] c v1 v2 v3 v4 by simp
qed

section \<open>Construction on a short buffer\<close>

text \<open>
  C10. The capacity check that the constructor makes before writing the encapsulation
  header reads the offset field before its first assignment and therefore never grows
  the buffer. With an initial buffer (supplied, or of the requested size) of fewer than
  4 bytes the header write is out of bounds and the construction fails with a
  RangeError; a writer that the constructor returns has the capacity of its initial
  buffer, which is at least 4.
\<close>

theorem constructor_needs_four_bytes:
  "resizeIfNeeded_at None 4 (initial_buffer opts) = initial_buffer opts
   \<and> (length (initial_buffer opts) < 4 \<longrightarrow> constructor hb opts = Inl RangeError)
   \<and> (\<forall>w. constructor hb opts = Inr w \<longrightarrow>
          4 \<le> length (buffer w) \<and> length (buffer w) = length (initial_buffer opts))"
proof -
  have "4 \<le> length (buffer w) \<and> length (buffer w) = length (initial_buffer opts)"
    if "constructor hb opts = Inr w" for w
    using constructor_result [OF that] by simp
  then show ?thesis
    using constructor_fails [of opts hb] by auto
qed

theorem constructor_needs_four_bytes_witness:
  "length (initial_buffer (sized_options 3)) < 4
   \<and> constructor False (sized_options 3) = Inl RangeError
   \<and> constructor False (sized_options 4)
       = Inr \<lparr>littleEndian = True, hostLittleEndian = True, isCDR2 = False,
              eightByteAlignment = 8, buffer = [0, 1, 0, 0], offset = 4, origin = 4\<rparr>
   \<and> 4 \<le> length (buffer \<lparr>littleEndian = True, hostLittleEndian = True, isCDR2 = False,
              eightByteAlignment = 8, buffer = [0, 1, 0, 0], offset = 4, origin = 4\<rparr>)"
proof -
  have l: "length (initial_buffer (sized_options 3)) < 4" by code_simp
  have c: "constructor False (sized_options 4)
       = Inr \<lparr>littleEndian = True, hostLittleEndian = True, isCDR2 = False,
              eightByteAlignment = 8, buffer = [0, 1, 0, 0], offset = 4, origin = 4\<rparr>"
    by code_simp
  show ?thesis
    using constructor_needs_four_bytes [of "sized_options 3" False]
      constructor_needs_four_bytes [of "sized_options 4" False] l c
    by simp
qed

section \<open>Alignment of scalar writes\<close>

text \<open>
  C3. In a writer reached from the constructor by calls that all return, every scalar
  write returns. With W the alignment of the scalar (its width, except 4 for the
  8-byte types under XCDR2) the write is preceded by the least padding that brings the
  offset to a multiple of W from the origin; the padding bytes are zero; the offset
  advances by the padding plus the width; the origin stays; and after the write the
  offset is again a multiple of W from the origin.
\<close>

theorem scalar_write_aligned:
  assumes "constructor hb opts = Inr w0" and "run w0 cs = Returns w"
  shows "\<exists>w' pad.
           write_scalar w s = Returns w'
           \<and> pad < table_alignment (isCDR2 w) s
           \<and> (offset w + pad - origin w) mod table_alignment (isCDR2 w) s = 0
           \<and> offset w' = offset w + pad + width s
           \<and> origin w' = origin w
           \<and> (offset w' - origin w') mod table_alignment (isCDR2 w) s = 0
           \<and> data w' = data w @ replicate pad 0 @ scalar_bytes (littleEndian w) s"
proof -
  let ?W = "table_alignment (isCDR2 w) s"
  let ?pad = "align_padding (offset w) (origin w) ?W"
  let ?out = "write_scalar w s"
  have i: "inv w" and c: "configured w"
    using reachable_inv [OF assms] by simp_all
  have a: "appends w ?out (replicate ?pad 0 @ scalar_bytes (littleEndian w) s)"
    using i c by (rule write_scalar_appends)
  have r: "?out = Returns (state_of ?out)"
    using a by (rule appends_returns_eq)
  have p: "?pad < ?W"
    by (rule align_padding_less [OF table_alignment_pos])
  have m: "(offset w + ?pad - origin w) mod ?W = 0"
    using i by (intro align_padding_aligned table_alignment_pos) (simp add: inv_def)
  have o: "offset (state_of ?out) = offset w + ?pad + width s"
    and g: "origin (state_of ?out) = origin w"
    and d: "data (state_of ?out) = data w @ replicate ?pad 0 @ scalar_bytes (littleEndian w) s"
    using a by (simp_all add: appends_def)
  have "offset w + ?pad + width s - origin w = (offset w + ?pad - origin w) + width s"
    using i by (simp add: inv_def)
  moreover have "?W dvd (offset w + ?pad - origin w) + width s"
    using m table_alignment_dvd_width [of "isCDR2 w" s] by (simp add: mod_eq_0_iff_dvd)
  ultimately have f: "(offset (state_of ?out) - origin (state_of ?out)) mod ?W = 0"
    using o g by (simp add: mod_eq_0_iff_dvd)
  show ?thesis
  proof (intro exI conjI)
    show "write_scalar w s = Returns (state_of ?out)" by (rule r)
    show "?pad < ?W" by (rule p)
    show "(offset w + ?pad - origin w) mod ?W = 0" by (rule m)
    show "offset (state_of ?out) = offset w + ?pad + width s" by (rule o)
    show "origin (state_of ?out) = origin w" by (rule g)
    show "(offset (state_of ?out) - origin (state_of ?out)) mod ?W = 0" by (rule f)
    show "data (state_of ?out) = data w @ replicate ?pad 0 @ scalar_bytes (littleEndian w) s"
      by (rule d)
  qed
qed

theorem scalar_write_aligned_witness:
  "constructor False (kind_options CDR2_LE) = Inr (fresh CDR2_LE)
   \<and> returns (run (fresh CDR2_LE) [Scalar (Uint8 1)])
   \<and> (\<exists>w' pad.
         write_scalar (state_of (run (fresh CDR2_LE) [Scalar (Uint8 1)])) (Float64 float64_one)
           = Returns w'
         \<and> pad < 4
         \<and> (5 + pad - origin (state_of (run (fresh CDR2_LE) [Scalar (Uint8 1)]))) mod 4 = 0
         \<and> offset w' = 5 + pad + 8
         \<and> origin w' = origin (state_of (run (fresh CDR2_LE) [Scalar (Uint8 1)]))
         \<and> (offset w' - origin w') mod 4 = 0
         \<and> data w' = data (state_of (run (fresh CDR2_LE) [Scalar (Uint8 1)]))
                       @ replicate pad 0
                       @ scalar_bytes (littleEndian (state_of (run (fresh CDR2_LE) [Scalar (Uint8 1)])))
                           (Float64 float64_one))"
proof -
  let ?w = "state_of (run (fresh CDR2_LE) [Scalar (Uint8 1)])"
  have c: "constructor False (kind_options CDR2_LE) = Inr (fresh CDR2_LE)"
    by (rule constructor_fresh)
  have v: "returns (run (fresh CDR2_LE) [Scalar (Uint8 1)])"
    by code_simp
  have r: "run (fresh CDR2_LE) [Scalar (Uint8 1)] = Returns ?w"
    using v by (rule returns_eq)
  have t: "table_alignment (isCDR2 ?w) (Float64 float64_one) = 4"
    by code_simp
  have o: "offset ?w = 5"
    by code_simp
  have x: "width (Float64 float64_one) = 8"
    by simp
  note e = scalar_write_aligned [OF c r, of "Float64 float64_one", unfolded t o x]
  show ?thesis
    by (intro conjI) (rule c, rule v, rule e)
qed

section \<open>Float64 after uint8 under XCDR2\<close>

lemma float64_one_bytes: "num_bytes 8 True (uint float64_one) = [0, 0, 0, 0, 0, 0, 0xF0, 0x3F]"
  by code_simp

lemma uint8_one_bytes: "num_bytes 1 True 1 = [1]"
  by code_simp

text \<open>
  C8 (as amended). For a writer constructed with kind CDR2_LE, on any host and with any
  initial buffer of at least 4 bytes, the calls uint8(1); float64(1.0) give exactly the
  bytes 00 11 00 00 | 01 00 00 00 | 00 00 00 00 00 00 F0 3F: the kind is the second byte
  of the encapsulation header, and the float64 is preceded by 3 zero bytes, to a 4-byte
  boundary.
\<close>

theorem float64_after_uint8_cdr2_le:
  assumes "opt_kind opts = Some CDR2_LE" and "4 \<le> length (initial_buffer opts)"
  shows "written (constructor hb opts) [Scalar (Uint8 1), Scalar (Float64 float64_one)]
         = Some [0x00, 0x11, 0x00, 0x00, 0x01, 0x00, 0x00, 0x00,
                 0x00, 0x00, 0x00, 0x00, 0x00, 0x00, 0xF0, 0x3F]"
proof -
  obtain w0 where c: "constructor hb opts = Inr w0"
    using constructor_succeeds [OF assms(2)] by blast
  have k: "inv w0" "configured w0" "offset w0 = 4" "origin w0 = 4"
    "data w0 = [0, 0x11, 0, 0]" "isCDR2 w0" "littleEndian w0"
    using constructor_result [OF c] assms(1) by simp_all
  let ?o1 = "write_scalar w0 (Uint8 1)"
  let ?w1 = "state_of ?o1"
  have a1: "appends w0 ?o1 [1]"
    using write_scalar_appends [OF k(1,2), of "Uint8 1"] k
    by (simp add: table_alignment_def num_bytes_def align_padding_def)
  have k1: "inv ?w1" "configured ?w1" "offset ?w1 = 5" "origin ?w1 = 4" "isCDR2 ?w1"
    "littleEndian ?w1"
    using a1 k by (simp_all add: appends_def same_config_def configured_def)
  let ?o2 = "write_scalar ?w1 (Float64 float64_one)"
  have p: "align_padding 5 4 4 = 3" by (simp add: align_padding_def)
  have rep: "replicate 3 (0::byte) = [0, 0, 0]" by (simp add: numeral_3_eq_3)
  have a2: "appends ?w1 ?o2 ([0, 0, 0] @ [0, 0, 0, 0, 0, 0, 0xF0, 0x3F])"
    using write_scalar_appends [OF k1(1,2), of "Float64 float64_one"] k1
    by (simp add: table_alignment_def float64_one_bytes p rep)
  have a: "appends w0 (then_do ?o1 (\<lambda>w1. write_scalar w1 (Float64 float64_one)))
             ([1] @ [0, 0, 0] @ [0, 0, 0, 0, 0, 0, 0xF0, 0x3F])"
    using a1 a2 by (rule appends_then_do)
  have e: "run w0 [Scalar (Uint8 1), Scalar (Float64 float64_one)]
           = then_do ?o1 (\<lambda>w1. write_scalar w1 (Float64 float64_one))"
    by (simp add: then_do_Returns_state)
  have "run w0 [Scalar (Uint8 1), Scalar (Float64 float64_one)]
        = Returns (state_of (run w0 [Scalar (Uint8 1), Scalar (Float64 float64_one)]))"
    using a unfolding e by (rule appends_returns_eq)
  moreover have "data (state_of (run w0 [Scalar (Uint8 1), Scalar (Float64 float64_one)]))
        = [0, 0x11, 0, 0] @ [1] @ [0, 0, 0] @ [0, 0, 0, 0, 0, 0, 0xF0, 0x3F]"
    using a k(5) unfolding e by (simp add: appends_def)
  ultimately show ?thesis
    unfolding written_def c
    by (cases "run w0 [Scalar (Uint8 1), Scalar (Float64 float64_one)]") simp_all
qed

theorem float64_after_uint8_cdr2_le_witness:
  "opt_kind (kind_options CDR2_LE) = Some CDR2_LE
   \<and> 4 \<le> length (initial_buffer (kind_options CDR2_LE))
   \<and> written (constructor False (kind_options CDR2_LE))
         [Scalar (Uint8 1), Scalar (Float64 float64_one)]
       = Some [0x00, 0x11, 0x00, 0x00, 0x01, 0x00, 0x00, 0x00,
               0x00, 0x00, 0x00, 0x00, 0x00, 0x00, 0xF0, 0x3F]"
proof -
  have 1: "opt_kind (kind_options CDR2_LE) = Some CDR2_LE" by code_simp
  have 2: "4 \<le> length (initial_buffer (kind_options CDR2_LE))" by code_simp
  show ?thesis
    using float64_after_uint8_cdr2_le [OF 1 2, of False] 1 2 by (intro conjI)
qed

theorem float64_after_uint8_cdr2_le_counterexample:
  "written (constructor False (kind_options CDR2_LE))
     [Scalar (Uint8 1), Scalar (Float64 float64_one)]
   \<noteq> Some [0x11, 0x00, 0x00, 0x00, 0x01, 0x00, 0x00, 0x00,
            0x00, 0x00, 0x00, 0x00, 0x00, 0x00, 0xF0, 0x3F]"
  by code_simp

section \<open>The XCDR2 member header by length code\<close>

lemma then_do_uint32_Throws:
  assumes "inv w"
  shows "then_do (uint32 w h) (\<lambda>w1. Throws e w1) = Throws e (state_of (uint32 w h))"
  using uint32_appends [OF assms, of h] by (rule then_do_Throws_state)

lemma lengthCodeToObjectSizes_power:
  "0 \<le> lc \<Longrightarrow> lc \<le> 3 \<Longrightarrow> lengthCodeToObjectSizes lc = 2 ^ nat lc"
proof -
  assume "0 \<le> lc" and "lc \<le> 3"
  then consider "lc = 0" | "lc = 1" | "lc = 2" | "lc = 3" by linarith
  then show ?thesis
    by cases (simp_all add: lengthCodeToObjectSizes_def)
qed

text \<open>The outcome of \<^verbatim>\<open>#memberHeaderV2\<close> by length code, for an id in range.\<close>

lemma memberHeaderV2_fixed:
  assumes "\<not> mid > 0x0fffffff" and "0 \<le> final_length_code sz lc" and "final_length_code sz lc \<le> 3"
  shows "memberHeaderV2 w mu mid sz lc =
     then_do (uint32 w (xcdr2_header_word mu (final_length_code sz lc) mid))
       (\<lambda>w1. if sz \<noteq> 2 ^ nat (final_length_code sz lc)
             then Throws (SizeNotFixed (final_length_code sz lc)
                            (2 ^ nat (final_length_code sz lc))) w1
             else Returns w1)"
proof -
  consider "final_length_code sz lc = 0" | "final_length_code sz lc = 1"
    | "final_length_code sz lc = 2" | "final_length_code sz lc = 3"
    using assms(2,3) by linarith
  then have c: "final_length_code sz lc = 0 \<or> final_length_code sz lc = 1
       \<or> final_length_code sz lc = 2 \<or> final_length_code sz lc = 3"
    by cases simp_all
  show ?thesis
    unfolding memberHeaderV2_unfold [OF assms(1)] lengthCodeToObjectSizes_power [OF assms(2,3)]
    by (simp only: c if_True)
qed

lemma memberHeaderV2_nextint:
  assumes "\<not> mid > 0x0fffffff" and "final_length_code sz lc = 4 \<or> final_length_code sz lc = 5"
  shows "memberHeaderV2 w mu mid sz lc =
     then_do (uint32 w (xcdr2_header_word mu (final_length_code sz lc) mid))
       (\<lambda>w1. uint32 w1 sz)"
proof -
  have n: "\<not> (final_length_code sz lc = 0 \<or> final_length_code sz lc = 1
       \<or> final_length_code sz lc = 2 \<or> final_length_code sz lc = 3)"
    using assms(2) by auto
  show ?thesis
    unfolding memberHeaderV2_unfold [OF assms(1)]
    by (simp only: n assms(2) if_True if_False)
qed

lemma memberHeaderV2_six:
  assumes "\<not> mid > 0x0fffffff" and "final_length_code sz lc = 6"
  shows "memberHeaderV2 w mu mid sz lc =
     then_do (uint32 w (xcdr2_header_word mu 6 mid))
       (\<lambda>w1. if sz mod 4 \<noteq> 0 then Throws SizeNotMultipleOf4 w1
             else uint32 w1 (js_sar sz 2))"
  unfolding memberHeaderV2_unfold [OF assms(1)] assms(2) by simp

lemma memberHeaderV2_seven:
  assumes "\<not> mid > 0x0fffffff" and "final_length_code sz lc = 7"
  shows "memberHeaderV2 w mu mid sz lc =
     then_do (uint32 w (xcdr2_header_word mu 7 mid))
       (\<lambda>w1. if sz mod 8 \<noteq> 0 then Throws SizeNotMultipleOf8 w1
             else uint32 w1 (js_sar sz 3))"
  unfolding memberHeaderV2_unfold [OF assms(1)] assms(2) by simp

lemma memberHeaderV2_unexpected:
  assumes "\<not> mid > 0x0fffffff" and "final_length_code sz lc < 0 \<or> 7 < final_length_code sz lc"
  shows "memberHeaderV2 w mu mid sz lc =
     then_do (uint32 w (xcdr2_header_word mu (final_length_code sz lc) mid))
       (\<lambda>w1. Throws (UnexpectedLengthCode (final_length_code sz lc)) w1)"
proof -
  have n: "\<not> (final_length_code sz lc = 0 \<or> final_length_code sz lc = 1
       \<or> final_length_code sz lc = 2 \<or> final_length_code sz lc = 3)"
    "\<not> (final_length_code sz lc = 4 \<or> final_length_code sz lc = 5)"
    "final_length_code sz lc \<noteq> 6" "final_length_code sz lc \<noteq> 7"
    using assms(2) by auto
  show ?thesis
    unfolding memberHeaderV2_unfold [OF assms(1)]
    by (simp only: n if_False)
qed

section \<open>Growth and the bytes already written\<close>

text \<open>
  C7. Before a write the writer makes room for the bytes it is about to add: if the
  capacity is short of offset + additional bytes it becomes the larger of twice the old
  capacity and offset + additional bytes, otherwise the buffer stays as it is. Growth
  keeps every byte of the old buffer and both cursors. From a writer that satisfies the
  invariant, no call changes a byte below the offset at which it started, whether it
  returns or throws, and no call shrinks the buffer.
\<close>

theorem growth_keeps_written_bytes:
  "offset w + n \<le> length (buffer (resizeIfNeeded w n))
   \<and> (length (buffer w) < offset w + n \<longrightarrow>
        length (buffer (resizeIfNeeded w n)) = max (2 * length (buffer w)) (offset w + n))
   \<and> (offset w + n \<le> length (buffer w) \<longrightarrow> buffer (resizeIfNeeded w n) = buffer w)
   \<and> take (length (buffer w)) (buffer (resizeIfNeeded w n)) = buffer w
   \<and> offset (resizeIfNeeded w n) = offset w
   \<and> origin (resizeIfNeeded w n) = origin w
   \<and> (inv w \<longrightarrow>
        data (resizeIfNeeded w n) = data w
        \<and> (\<forall>c. take (offset w) (buffer (state_of (exec w c))) = take (offset w) (buffer w)
                 \<and> length (buffer w) \<le> length (buffer (state_of (exec w c)))))"
proof -
  have 1: "offset w + n \<le> length (buffer (resizeIfNeeded w n))"
    by (rule resizeIfNeeded_room)
  have 2: "length (buffer (resizeIfNeeded w n)) = max (2 * length (buffer w)) (offset w + n)"
    if "length (buffer w) < offset w + n"
    using that by (simp add: resizeIfNeeded_def length_resizeIfNeeded_at)
  have 3: "buffer (resizeIfNeeded w n) = buffer w" if "offset w + n \<le> length (buffer w)"
    using that by (simp add: resizeIfNeeded_def resizeIfNeeded_at_append)
  have 4: "take (length (buffer w)) (buffer (resizeIfNeeded w n)) = buffer w"
    by (simp add: resizeIfNeeded_def take_resizeIfNeeded_at)
  have 5: "data (resizeIfNeeded w n) = data w" if "inv w"
    using frame_resizeIfNeeded [OF that, of n] by (simp add: frame_def data_def)
  have 6: "take (offset w) (buffer (state_of (exec w c))) = take (offset w) (buffer w)
           \<and> length (buffer w) \<le> length (buffer (state_of (exec w c)))" if "inv w" for c
    using exec_frame [OF that, of c] by (simp add: frame_def)
  show ?thesis
    using 1 2 3 4 5 6 by simp
qed

theorem growth_keeps_written_bytes_witness:
  "length (buffer (fresh CDR_LE)) < offset (fresh CDR_LE) + 20
   \<and> length (buffer (resizeIfNeeded (fresh CDR_LE) 20)) = 32
   \<and> inv (fresh CDR_LE)
   \<and> take 4 (buffer (state_of (exec (fresh CDR_LE) (String [0x61, 0x62, 0x63] True))))
       = [0, 1, 0, 0]"
proof -
  let ?w = "fresh CDR_LE"
  have h1: "length (buffer ?w) < offset ?w + 20" by code_simp
  have h2: "inv ?w" by code_simp
  have m: "max (2 * length (buffer ?w)) (offset ?w + 20) = 32" by code_simp
  have o: "offset ?w = 4" by code_simp
  have t: "take 4 (buffer ?w) = [0, 1, 0, 0]" by code_simp
  note g = growth_keeps_written_bytes [of ?w 20]
  have a: "length (buffer (resizeIfNeeded ?w 20)) = 32"
    using g h1 unfolding m by blast
  have "take (offset ?w) (buffer (state_of (exec ?w (String [0x61, 0x62, 0x63] True))))
        = take (offset ?w) (buffer ?w)"
    using g h2 by blast
  then have b: "take 4 (buffer (state_of (exec ?w (String [0x61, 0x62, 0x63] True))))
        = [0, 1, 0, 0]"
    unfolding o t .
  show ?thesis
    by (intro conjI) (rule h1, rule a, rule h2, rule b)
qed

section \<open>The XCDR1 member header as the specification words it\<close>

text \<open>
  C5. In an XCDR1 writer reached from the constructor by calls that all return,
  emHeader(mustUnderstand, id, objectSize) returns. It first pads with zeros to a
  multiple of 4 from the origin. If id \<open>\<le>\<close> 0x3F00 and objectSize \<open>\<le>\<close> 0xFFFF it then adds the
  4 bytes of uint16((mustUnderstand ? 0x4000 : 0) | id) and uint16(objectSize);
  otherwise it adds the 12 bytes of uint16((mustUnderstand ? 0x4000 : 0) |
  EXTENDED_PID), uint16(8), uint32(id) and uint32(objectSize). In both cases the
  origin is then the new offset.
\<close>

theorem emHeader_xcdr1:
  assumes "constructor hb opts = Inr w0" and "run w0 cs = Returns w" and "\<not> isCDR2 w"
  shows "\<exists>w'. emHeader w mu mid sz lc = Returns w'
           \<and> (offset w + align_padding (offset w) (origin w) 4 - origin w) mod 4 = 0
           \<and> data w' = data w @ replicate (align_padding (offset w) (origin w) 4) 0
                        @ (if mid \<le> 0x3F00 \<and> sz \<le> 0xFFFF then
                             num_bytes 2 (littleEndian w) ((if mu then 0x4000 else 0) OR mid)
                             @ num_bytes 2 (littleEndian w) sz
                           else
                             num_bytes 2 (littleEndian w) ((if mu then 0x4000 else 0) OR EXTENDED_PID)
                             @ num_bytes 2 (littleEndian w) 8
                             @ num_bytes 4 (littleEndian w) mid
                             @ num_bytes 4 (littleEndian w) sz)
           \<and> offset w' = offset w + align_padding (offset w) (origin w) 4
                          + (if mid \<le> 0x3F00 \<and> sz \<le> 0xFFFF then 4 else 12)
           \<and> origin w' = offset w'
           \<and> inv w'"
proof -
  let ?pad = "align_padding (offset w) (origin w) 4"
  have i: "inv w" using reachable_inv [OF assms(1,2)] by simp
  obtain w1 where e: "memberHeaderV1 w mu mid sz = Returns (resetOrigin w1)"
    and a: "appends w (Returns w1) (replicate ?pad 0 @ xcdr1_header_bytes (littleEndian w) mu mid sz)"
    using memberHeaderV1_result [OF i] by blast
  have l: "length (xcdr1_header_bytes (littleEndian w) mu mid sz)
           = (if mid \<le> 0x3F00 \<and> sz \<le> 0xFFFF then 4 else 12)"
    by (simp add: xcdr1_header_bytes_def)
  have m: "(offset w + ?pad - origin w) mod 4 = 0"
    using i by (intro align_padding_aligned) (simp_all add: inv_def)
  have 1: "emHeader w mu mid sz lc = Returns (resetOrigin w1)"
    using e assms(3) by (simp add: emHeader_def)
  have d: "data (resetOrigin w1) = data w1"
    by (simp add: resetOrigin_def data_def)
  have 2: "data (resetOrigin w1) = data w @ replicate ?pad 0
             @ xcdr1_header_bytes (littleEndian w) mu mid sz"
    using a unfolding d by (simp add: appends_def)
  have 3: "offset (resetOrigin w1) = offset w + ?pad + (if mid \<le> 0x3F00 \<and> sz \<le> 0xFFFF then 4 else 12)"
    using a l by (simp add: appends_def resetOrigin_def)
  have 4: "origin (resetOrigin w1) = offset (resetOrigin w1)"
    by (simp add: resetOrigin_def)
  have 5: "inv (resetOrigin w1)"
    using a by (simp add: appends_def resetOrigin_def inv_def)
  show ?thesis
    using 1 m 2 3 4 5 unfolding xcdr1_header_bytes_def by (intro exI [of _ "resetOrigin w1"] conjI)
qed

theorem emHeader_xcdr1_witness:
  "constructor False (kind_options PL_CDR_LE) = Inr (fresh PL_CDR_LE)
   \<and> returns (run (fresh PL_CDR_LE) [Scalar (Uint8 1)])
   \<and> \<not> isCDR2 (state_of (run (fresh PL_CDR_LE) [Scalar (Uint8 1)]))
   \<and> (\<exists>w'. emHeader (state_of (run (fresh PL_CDR_LE) [Scalar (Uint8 1)])) True 0x12 4 None
               = Returns w'
             \<and> offset w' = 12 \<and> origin w' = offset w')"
proof -
  let ?w = "state_of (run (fresh PL_CDR_LE) [Scalar (Uint8 1)])"
  have c: "constructor False (kind_options PL_CDR_LE) = Inr (fresh PL_CDR_LE)"
    by (rule constructor_fresh)
  have v: "returns (run (fresh PL_CDR_LE) [Scalar (Uint8 1)])" by code_simp
  have r: "run (fresh PL_CDR_LE) [Scalar (Uint8 1)] = Returns ?w"
    using v by (rule returns_eq)
  have x: "\<not> isCDR2 ?w" by code_simp
  have o: "offset ?w + align_padding (offset ?w) (origin ?w) 4
             + (if (0x12::int) \<le> 0x3F00 \<and> (4::int) \<le> 0xFFFF then 4 else 12) = 12"
    by code_simp
  obtain w' where 1: "emHeader ?w True 0x12 4 None = Returns w'"
    and 2: "offset w' = offset ?w + align_padding (offset ?w) (origin ?w) 4
             + (if (0x12::int) \<le> 0x3F00 \<and> (4::int) \<le> 0xFFFF then 4 else 12)"
    and 3: "origin w' = offset w'"
    using emHeader_xcdr1 [OF c r x, of True "0x12" 4 None] by blast
  have 4: "offset w' = 12" using 2 unfolding o .
  have "\<exists>w'. emHeader ?w True 0x12 4 None = Returns w' \<and> offset w' = 12 \<and> origin w' = offset w'"
    by (intro exI conjI) (rule 1, rule 4, rule 3)
  then show ?thesis
    using c v x by (intro conjI)
qed

section \<open>The XCDR2 member header as the specification words it\<close>

lemma appends_throw_state:
  assumes "inv w"
  shows "appends w (Returns (state_of (uint32 w h)))
           (replicate (align_padding (offset w) (origin w) 4) 0 @ num_bytes 4 (littleEndian w) h)"
  using uint32_appends [OF assms, of h] by (rule appends_Returns_state)

text \<open>
  C4. In an XCDR2 writer reached from the constructor by calls that all return,
  emHeader(mustUnderstand, id, objectSize, lengthCode?) throws IdTooLarge for
  id > 0x0FFFFFFF and leaves the writer as it was. Otherwise, with the final length code
  the one supplied, else 0, 1, 2, 3 for the sizes 1, 2, 4, 8 and 4 for any other size,
  it pads to a multiple of 4 and writes the 4 bytes of
  uint32((mustUnderstand ? 0x80000000 : 0) | (code << 28) | id); then for the codes
  0 to 3 it returns if objectSize is 1, 2, 4, 8 respectively and throws a BadLengthCode
  error if not; for 4 and 5 it writes uint32(objectSize); for 6 it writes
  uint32(objectSize >> 2) if objectSize is a multiple of 4 and throws otherwise; for 7
  it writes uint32(objectSize >> 3) if objectSize is a multiple of 8 and throws
  otherwise; for any other code it throws. The shifts are JavaScript's, on 32-bit
  signed integers; for 0 \<open>\<le>\<close> objectSize < 2^31 they are the divisions by 4 and 8.
\<close>

theorem emHeader_xcdr2:
  assumes "constructor hb opts = Inr w0" and "run w0 cs = Returns w" and "isCDR2 w"
  shows "(mid > 0x0FFFFFFF \<longrightarrow> emHeader w mu mid sz lc = Throws IdTooLarge w)
   \<and> (mid \<le> 0x0FFFFFFF \<longrightarrow>
        (let flc = final_length_code sz lc;
             hdr = replicate (align_padding (offset w) (origin w) 4) 0
                   @ num_bytes 4 (littleEndian w) (xcdr2_header_word mu flc mid);
             out = emHeader w mu mid sz lc
         in (0 \<le> flc \<and> flc \<le> 3 \<longrightarrow>
               (if sz = 2 ^ nat flc then appends w out hdr
                else \<exists>e w'. out = Throws e w' \<and> BadLengthCode e))
          \<and> (flc = 4 \<or> flc = 5 \<longrightarrow>
               appends w out (hdr @ num_bytes 4 (littleEndian w) sz))
          \<and> (flc = 6 \<longrightarrow>
               (if sz mod 4 = 0
                then appends w out (hdr @ num_bytes 4 (littleEndian w) (js_sar sz 2))
                else \<exists>e w'. out = Throws e w' \<and> BadLengthCode e))
          \<and> (flc = 7 \<longrightarrow>
               (if sz mod 8 = 0
                then appends w out (hdr @ num_bytes 4 (littleEndian w) (js_sar sz 3))
                else \<exists>e w'. out = Throws e w' \<and> BadLengthCode e))
          \<and> (flc < 0 \<or> 7 < flc \<longrightarrow> (\<exists>e w'. out = Throws e w' \<and> BadLengthCode e))))
   \<and> (0 \<le> sz \<and> sz < 2 ^ 31 \<longrightarrow> js_sar sz 2 = sz div 4 \<and> js_sar sz 3 = sz div 8)"
proof -
  let ?flc = "final_length_code sz lc"
  let ?H = "xcdr2_header_word mu ?flc mid"
  let ?hdr = "replicate (align_padding (offset w) (origin w) 4) 0 @ num_bytes 4 (littleEndian w) ?H"
  let ?out = "emHeader w mu mid sz lc"
  have i: "inv w" using reachable_inv [OF assms(1,2)] by simp
  have v2: "?out = memberHeaderV2 w mu mid sz lc"
    using assms(3) by (simp add: emHeader_def)
  have big: "mid > 0x0FFFFFFF \<Longrightarrow> ?out = Throws IdTooLarge w"
    unfolding v2 by (simp add: memberHeaderV2_def)
  have h: "appends w (uint32 w ?H) ?hdr"
    using i by (rule uint32_appends)
  have two: "appends w (then_do (uint32 w ?H) (\<lambda>w1. uint32 w1 x))
               (?hdr @ num_bytes 4 (littleEndian w) x)" for x
    using appends_second_word [OF i, of ?H x] by simp
  have thr: "then_do (uint32 w ?H) (\<lambda>w1. Throws e w1) = Throws e (state_of (uint32 w ?H))" for e
    using i by (rule then_do_uint32_Throws)
  have fixed: "if sz = 2 ^ nat ?flc then appends w ?out ?hdr
               else \<exists>e w'. ?out = Throws e w' \<and> BadLengthCode e"
    if m: "mid \<le> 0x0FFFFFFF" and f: "0 \<le> ?flc" "?flc \<le> 3"
  proof -
    have nm: "\<not> mid > 0x0fffffff" using m by simp
    note e = memberHeaderV2_fixed [OF nm f, of w mu]
    show ?thesis
    proof (cases "sz = 2 ^ nat ?flc")
      case True
      then have n: "\<not> sz \<noteq> 2 ^ nat ?flc" by blast
      have "?out = uint32 w ?H"
        unfolding v2 e by (simp only: if_not_P [OF n] then_do_Returns_state)
      then have "appends w ?out ?hdr" using h by (simp only:)
      then show ?thesis by (simp only: if_P [OF True])
    next
      case False
      have "?out = Throws (SizeNotFixed ?flc (2 ^ nat ?flc)) (state_of (uint32 w ?H))"
        unfolding v2 e by (simp only: if_P [OF False] thr)
      then have "\<exists>e w'. ?out = Throws e w' \<and> BadLengthCode e"
        by (intro exI conjI) (assumption, simp)
      then show ?thesis by (simp only: if_not_P [OF False])
    qed
  qed
  have next45: "appends w ?out (?hdr @ num_bytes 4 (littleEndian w) sz)"
    if m: "mid \<le> 0x0FFFFFFF" and f: "?flc = 4 \<or> ?flc = 5"
  proof -
    have nm: "\<not> mid > 0x0fffffff" using m by simp
    show ?thesis
      unfolding v2 memberHeaderV2_nextint [OF nm f] by (rule two)
  qed
  have six: "if sz mod 4 = 0
             then appends w ?out (?hdr @ num_bytes 4 (littleEndian w) (js_sar sz 2))
             else \<exists>e w'. ?out = Throws e w' \<and> BadLengthCode e"
    if m: "mid \<le> 0x0FFFFFFF" and f: "?flc = 6"
  proof (cases "sz mod 4 = 0")
    case True
    have "?out = then_do (uint32 w ?H) (\<lambda>w1. uint32 w1 (js_sar sz 2))"
      unfolding v2 using memberHeaderV2_six [of mid sz lc w mu] m f True by simp
    then show ?thesis using True two [of "js_sar sz 2"] by simp
  next
    case False
    have "?out = Throws SizeNotMultipleOf4 (state_of (uint32 w ?H))"
      unfolding v2 using memberHeaderV2_six [of mid sz lc w mu] m f False thr by simp
    then show ?thesis using False by simp
  qed
  have seven: "if sz mod 8 = 0
             then appends w ?out (?hdr @ num_bytes 4 (littleEndian w) (js_sar sz 3))
             else \<exists>e w'. ?out = Throws e w' \<and> BadLengthCode e"
    if m: "mid \<le> 0x0FFFFFFF" and f: "?flc = 7"
  proof (cases "sz mod 8 = 0")
    case True
    have "?out = then_do (uint32 w ?H) (\<lambda>w1. uint32 w1 (js_sar sz 3))"
      unfolding v2 using memberHeaderV2_seven [of mid sz lc w mu] m f True by simp
    then show ?thesis using True two [of "js_sar sz 3"] by simp
  next
    case False
    have "?out = Throws SizeNotMultipleOf8 (state_of (uint32 w ?H))"
      unfolding v2 using memberHeaderV2_seven [of mid sz lc w mu] m f False thr by simp
    then show ?thesis using False by simp
  qed
  have other: "\<exists>e w'. ?out = Throws e w' \<and> BadLengthCode e"
    if m: "mid \<le> 0x0FFFFFFF" and f: "?flc < 0 \<or> 7 < ?flc"
  proof -
    have nm: "\<not> mid > 0x0fffffff" using m by simp
    have "?out = Throws (UnexpectedLengthCode ?flc) (state_of (uint32 w ?H))"
      unfolding v2 memberHeaderV2_unexpected [OF nm f] by (rule thr)
    then show ?thesis by (intro exI conjI) (assumption, simp)
  qed
  have sar: "js_sar sz 2 = sz div 4 \<and> js_sar sz 3 = sz div 8" if "0 \<le> sz \<and> sz < 2 ^ 31"
    using that js_sar_div [of sz 2] js_sar_div [of sz 3] by simp
  show ?thesis
    unfolding Let_def
    using big fixed next45 six seven other sar by blast
qed

theorem emHeader_xcdr2_witness:
  "constructor False (kind_options PL_CDR2_LE) = Inr (fresh PL_CDR2_LE)
   \<and> returns (run (fresh PL_CDR2_LE) [Scalar (Uint8 1)])
   \<and> isCDR2 (state_of (run (fresh PL_CDR2_LE) [Scalar (Uint8 1)]))
   \<and> (0x1234 :: int) \<le> 0x0FFFFFFF
   \<and> final_length_code 12 (Some 6) = 6
   \<and> appends (state_of (run (fresh PL_CDR2_LE) [Scalar (Uint8 1)]))
         (emHeader (state_of (run (fresh PL_CDR2_LE) [Scalar (Uint8 1)])) False 0x1234 12 (Some 6))
         [0, 0, 0, 0x34, 0x12, 0x00, 0x60, 0x03, 0x00, 0x00, 0x00]"
proof -
  let ?w = "state_of (run (fresh PL_CDR2_LE) [Scalar (Uint8 1)])"
  have c: "constructor False (kind_options PL_CDR2_LE) = Inr (fresh PL_CDR2_LE)"
    by (rule constructor_fresh)
  have v: "returns (run (fresh PL_CDR2_LE) [Scalar (Uint8 1)])" by code_simp
  have r: "run (fresh PL_CDR2_LE) [Scalar (Uint8 1)] = Returns ?w"
    using v by (rule returns_eq)
  have x: "isCDR2 ?w" by code_simp
  have m: "(0x1234 :: int) \<le> 0x0FFFFFFF" by simp
  have f: "final_length_code 12 (Some 6) = 6" by (simp add: final_length_code_def)
  have d: "(12 :: int) mod 4 = 0" by simp
  have b: "(replicate (align_padding (offset ?w) (origin ?w) 4) 0
            @ num_bytes 4 (littleEndian ?w) (xcdr2_header_word False 6 0x1234))
           @ num_bytes 4 (littleEndian ?w) (js_sar 12 2)
           = [0, 0, 0, 0x34, 0x12, 0x00, 0x60, 0x03, 0x00, 0x00, 0x00]"
    by code_simp
  note t = emHeader_xcdr2 [OF c r x, of "0x1234" False 12 "Some 6", unfolded Let_def f]
  note t6 = t [THEN conjunct2, THEN conjunct1, THEN mp, OF m,
      THEN conjunct2, THEN conjunct2, THEN conjunct1, THEN mp, OF refl]
  have "appends ?w (emHeader ?w False 0x1234 12 (Some 6))
         ((replicate (align_padding (offset ?w) (origin ?w) 4) 0
            @ num_bytes 4 (littleEndian ?w) (xcdr2_header_word False 6 0x1234))
           @ num_bytes 4 (littleEndian ?w) (js_sar 12 2))"
    using t6 by (simp only: d if_True)
  then have a: "appends ?w (emHeader ?w False 0x1234 12 (Some 6))
         [0, 0, 0, 0x34, 0x12, 0x00, 0x60, 0x03, 0x00, 0x00, 0x00]"
    unfolding b .
  show ?thesis
    by (intro conjI) (rule c, rule v, rule x, rule m, rule f, rule a)
qed

section \<open>Errors of the member header\<close>






section \<open>String lengths\<close>

text \<open>
  C1. The string call takes the length from \<^verbatim>\<open>value.length\<close>, the number of UTF-16 code
  units. For "abc" on a fresh little-endian writer it adds 04 00 00 00 61 62 63 00
  after the header. For the one-character string U+00E9, whose UTF-8 encoding is the two
  bytes C3 A9, it adds the length 2 (not 3), no byte of the encoding (two bytes do not
  fit the one-byte window given to the encoder, which leaves the buffer's zero byte in
  place) and the terminator: 02 00 00 00 00 00.
\<close>

theorem string_counts_code_units:
  "data (state_of (string_w (fresh CDR_LE) [0x61, 0x62, 0x63] True))
     = [0, 1, 0, 0, 0x04, 0x00, 0x00, 0x00, 0x61, 0x62, 0x63, 0x00]
   \<and> utf8 [0x61, 0x62, 0x63] = [0x61, 0x62, 0x63]
   \<and> utf8 [0xE9] = [0xC3, 0xA9]
   \<and> returns (string_w (fresh CDR_LE) [0xE9] True)
   \<and> data (state_of (string_w (fresh CDR_LE) [0xE9] True))
     = [0, 1, 0, 0, 0x02, 0x00, 0x00, 0x00, 0x00, 0x00]"
  by (intro conjI; code_simp)

section \<open>Bulk copies of 8-byte arrays under XCDR2\<close>

lemma int64_appends:
  "inv w \<Longrightarrow> appends w (int64 w v)
     (replicate (align_padding (offset w) (origin w) (eightByteAlignment w)) 0
      @ num_bytes 8 (littleEndian w) v)"
  using appends_aligned_set [of w "num_bytes 8 (littleEndian w) v" 8 "eightByteAlignment w"]
  by (simp add: int64_def setBigInt64_def Let_def)

lemma length_concat_num_bytes:
  "length (concat (map (num_bytes n le) vs)) = n * length vs"
  by (induction vs) simp_all

text \<open>The element-by-element path for 8-byte integers under XCDR2, from an offset that
  is a multiple of 4 from the origin: no padding anywhere.\<close>

lemma for_each_int64_xcdr2:
  assumes "aligned 4 w" and "eightByteAlignment w = 4"
  shows "appends w (for_each int64 w vs) (concat (map (num_bytes 8 (littleEndian w)) vs))"
  using assms
proof (induction vs arbitrary: w)
  case Nil
  then show ?case by (simp add: appends_def same_config_def aligned_def)
next
  case (Cons v vs)
  let ?o1 = "int64 w v"
  have i: "inv w" using Cons.prems(1) by (simp add: aligned_def)
  have p: "align_padding (offset w) (origin w) 4 = 0"
    using Cons.prems(1) by (simp add: aligned_def align_padding_zero inv_def)
  have 1: "appends w ?o1 (num_bytes 8 (littleEndian w) v)"
    using int64_appends [OF i, of v] Cons.prems(2) p by simp
  have a1: "aligned 4 (state_of ?o1)"
    using Cons.prems(1) 1 by (rule appends_aligned_after) simp
  have e1: "eightByteAlignment (state_of ?o1) = 4"
    using 1 Cons.prems(2) by (simp add: appends_def same_config_def)
  have 2: "appends (state_of ?o1) (for_each int64 (state_of ?o1) vs)
             (concat (map (num_bytes 8 (littleEndian w)) vs))"
    using Cons.IH [OF a1 e1] appends_littleEndian [OF 1] by simp
  show ?case
    using appends_then_do [OF 1, of "\<lambda>w1. for_each int64 w1 vs", OF 2] by simp
qed

text \<open>
  C2. On a little-endian host, \<^verbatim>\<open>int64Array\<close> of a \<^verbatim>\<open>BigInt64Array\<close> of ten elements with
  \<^verbatim>\<open>writeLength = true\<close> on a fresh CDR2_LE writer takes the bulk copy, which aligns to
  \<^verbatim>\<open>BYTES_PER_ELEMENT\<close> = 8: the length prefix ends at offset 8, which is 4 from the
  origin, so 4 zero bytes go before the elements and the data ends at 92. The
  element-by-element loop from the same writer state aligns each element to 4, adds no
  padding, and ends at 88 with the first element where the bulk copy has its padding.
\<close>

theorem int64Array_bulk_copy_pads_to_8:
  "fast_path (state_of (write_length (fresh CDR2_LE) True (length ten_int64))) (length ten_int64)
   \<and> length (data (state_of (int64Array (fresh CDR2_LE) (TypedView ten_int64) True))) = 92
   \<and> take 8 (drop 8 (data (state_of (int64Array (fresh CDR2_LE) (TypedView ten_int64) True))))
       = [0, 0, 0, 0, 1, 0, 0, 0]
   \<and> length (data (state_of (for_each int64
                 (state_of (write_length (fresh CDR2_LE) True (length ten_int64)))
                 (map sint ten_int64)))) = 88
   \<and> take 8 (drop 8 (data (state_of (for_each int64
                 (state_of (write_length (fresh CDR2_LE) True (length ten_int64)))
                 (map sint ten_int64)))))
       = [1, 0, 0, 0, 0, 0, 0, 0]"
proof -
  let ?w1 = "state_of (write_length (fresh CDR2_LE) True (length ten_int64))"
  let ?slow = "for_each int64 ?w1 (map sint ten_int64)"
  let ?B = "concat (map (num_bytes 8 (littleEndian ?w1)) (map sint ten_int64))"
  have f: "fast_path ?w1 (length ten_int64)" by code_simp
  have l: "length (data (state_of (int64Array (fresh CDR2_LE) (TypedView ten_int64) True))) = 92"
    by code_simp
  have t: "take 8 (drop 8 (data (state_of (int64Array (fresh CDR2_LE) (TypedView ten_int64) True))))
       = [0, 0, 0, 0, 1, 0, 0, 0]"
    by code_simp
  have a: "aligned 4 ?w1" by code_simp
  have e: "eightByteAlignment ?w1 = 4" by code_simp
  have d1: "length (data ?w1) = 8" by code_simp
  have b: "take 8 ?B = [1, 0, 0, 0, 0, 0, 0, 0]" by code_simp
  have n: "length (map sint ten_int64) = 10" by code_simp
  have s: "data (state_of ?slow) = data ?w1 @ ?B"
    using for_each_int64_xcdr2 [OF a e, of "map sint ten_int64"] by (simp add: appends_def)
  have lb: "length ?B = 8 * length (map sint ten_int64)"
    by (rule length_concat_num_bytes)
  have sl: "length (data (state_of ?slow)) = 88"
    unfolding s length_append d1 lb n by simp
  have st: "take 8 (drop 8 (data (state_of ?slow))) = [1, 0, 0, 0, 0, 0, 0, 0]"
    unfolding s using d1 b by simp
  show ?thesis
    by (intro conjI) (rule f, rule l, rule t, rule sl, rule st)
qed

end
